theory Spec2Isabelle
  imports Main "HOL-Library.Char_ord" "HOL-Library.List_Lexorder" "HOL-Library.AList"
begin

section \<open>Data model of the runner\<close>

text \<open>
  The runner of \<^verbatim>\<open>spread/runner.go\<close>. Names are Go strings, modelled as \<open>string\<close>.
  A script is kept as the sequence of its code points, because \<^verbatim>\<open>strings.TrimSpace\<close>
  decides white space per decoded rune. Go maps with a zero default are total functions
  or association lists read with a default. Pointers to suites, backends and jobs are
  compared by value: the loader gives every suite and backend its own name.
\<close>

text \<open>
  Modelled from the spec: the types \<^verbatim>\<open>Project\<close>, \<^verbatim>\<open>Backend\<close>, \<^verbatim>\<open>Suite\<close>, \<^verbatim>\<open>Task\<close> and
  \<^verbatim>\<open>Job\<close> are declared in another file of the repository. The records below hold the fields
  that \<^verbatim>\<open>runner.go\<close> reads. A job's project is the project of the runner, so the record of a
  job has no field for it.
\<close>

type_synonym rune = nat
type_synonym script = "rune list"

record suite =
  Name_suite :: string
  Prepare_suite :: script
  Restore_suite :: script

record task =
  Name_task :: string
  Prepare_task :: script
  Execute_task :: script
  Restore_task :: script

record backend =
  Name_backend :: string
  Type_backend :: string
  Systems :: "string list"
  SystemWorkers :: "(string \<times> int) list"
  Prepare_backend :: script
  Restore_backend :: script

record job =
  Backend :: backend
  System :: string
  Suite :: suite
  Task :: task
  Variant :: string
  Environment :: "(string \<times> string) list"

record project =
  RemotePath :: string
  Prepare_project :: script
  Restore_project :: script
  Backends :: "backend list"

record options =
  Password :: string
  Reuse :: "(string \<times> string list) list"
  Keep :: bool
  Debug :: bool
  Shell :: bool
  Abend :: bool
  Restore :: bool
  Resend :: bool
  Discard :: bool

text \<open>Reading a Go map: a missing key gives the zero value.\<close>

definition lookup_int :: "(string \<times> int) list \<Rightarrow> string \<Rightarrow> int" where
  "lookup_int m k = (case map_of m k of None \<Rightarrow> 0 | Some v \<Rightarrow> v)"

definition lookup_list :: "(string \<times> string list) list \<Rightarrow> string \<Rightarrow> string list" where
  "lookup_list m k = (case map_of m k of None \<Rightarrow> [] | Some v \<Rightarrow> v)"

section \<open>The run helper\<close>

datatype verb = preparing | executing | restoring

text \<open>The \<^verbatim>\<open>context interface{}\<close> argument of \<^verbatim>\<open>run\<close>: the project, a backend, a suite or a job.\<close>

datatype ctx = CtxProject | CtxBackend backend | CtxSuite suite | CtxJob job

text \<open>
  The working directory handed to the client: the project's remote path, or that path
  joined with the task's name.
\<close>

datatype dir = RemoteDir | TaskDir string

datatype client_call = CallTrace script dir | CallShell dir

text \<open>\<^verbatim>\<open>unicode.IsSpace\<close>: the code points with the White_Space property.\<close>

definition IsSpace :: "rune \<Rightarrow> bool" where
  "IsSpace c \<longleftrightarrow>
     (9 \<le> c \<and> c \<le> 13) \<or> c = 32 \<or> c = 133 \<or> c = 160 \<or> c = 5760 \<or>
     (8192 \<le> c \<and> c \<le> 8202) \<or> c = 8232 \<or> c = 8233 \<or> c = 8239 \<or> c = 8287 \<or> c = 12288"

definition TrimSpace :: "script \<Rightarrow> script" where
  "TrimSpace s = rev (dropWhile IsSpace (rev (dropWhile IsSpace s)))"

text \<open>
  \<^verbatim>\<open>run(client, job, verb, context, script, &abend)\<close>. The outcome of \<^verbatim>\<open>client.Trace\<close>
  is the argument \<open>trace_ok\<close>. The result is the returned bool, the new value of
  \<^verbatim>\<open>*abend\<close> and the calls made on the client, in order. Printing is left out.
\<close>

definition run ::
  "options \<Rightarrow> job \<Rightarrow> verb \<Rightarrow> ctx \<Rightarrow> script \<Rightarrow> bool \<Rightarrow> bool \<Rightarrow> bool \<times> bool \<times> client_call list"
where
  "run opts j v c script0 ab trace_ok =
     (let script = TrimSpace script0 in
      if length script = 0 then (True, ab, [])
      else
        let d = (if c = CtxBackend (Backend j) \<or> c = CtxProject then RemoteDir
                 else TaskDir (Name_task (Task j))) in
        if Shell opts \<and> v = executing then (True, ab, [CallShell d])
        else if trace_ok then (True, ab, [CallTrace script d])
        else (False, Abend opts,
              CallTrace script d # (if Debug opts then [CallShell d] else [])))"

section \<open>The job picker\<close>

type_synonym suite_key = "string \<times> string \<times> string"

definition suiteWorkersKey :: "job \<Rightarrow> suite_key" where
  "suiteWorkersKey j = (Name_backend (Backend j), System j, Name_suite (Suite j))"

text \<open>
  The scan of \<^verbatim>\<open>Runner.job\<close> from index \<open>i\<close> on, with the running \<^verbatim>\<open>best\<close> and
  \<^verbatim>\<open>bestWorkers\<close>; the result is the final \<^verbatim>\<open>best\<close>.
\<close>

fun job_scan ::
  "(suite_key \<Rightarrow> int) \<Rightarrow> backend \<Rightarrow> string \<Rightarrow> suite option \<Rightarrow> nat \<Rightarrow> job option list \<Rightarrow> int \<Rightarrow> int \<Rightarrow> int"
where
  "job_scan sw b sys su i [] best bestWorkers = best"
| "job_scan sw b sys su i (None # ps) best bestWorkers =
     job_scan sw b sys su (Suc i) ps best bestWorkers"
| "job_scan sw b sys su i (Some j # ps) best bestWorkers =
     (if Backend j \<noteq> b \<or> System j \<noteq> sys then job_scan sw b sys su (Suc i) ps best bestWorkers
      else if Some (Suite j) = su then int i
      else if sw (suiteWorkersKey j) < bestWorkers
        then job_scan sw b sys su (Suc i) ps (int i) (sw (suiteWorkersKey j))
        else job_scan sw b sys su (Suc i) ps best bestWorkers)"

text \<open>\<^verbatim>\<open>Runner.job\<close>: the picked job, if any, and the pending list with its slot cleared.\<close>

definition job_pick ::
  "(suite_key \<Rightarrow> int) \<Rightarrow> job option list \<Rightarrow> backend \<Rightarrow> string \<Rightarrow> suite option
    \<Rightarrow> job option \<times> job option list"
where
  "job_pick sw ps b sys su =
     (let best = job_scan sw b sys su 0 ps (- 1) 1000000 in
      if best \<ge> 0 then (ps ! nat best, ps[nat best := None])
      else (None, ps))"

text \<open>
  Index \<open>i\<close> of the pending list holds the job \<open>j\<close>, not cleared, of the caller's
  backend and system.
\<close>

definition candidate :: "backend \<Rightarrow> string \<Rightarrow> job option list \<Rightarrow> nat \<Rightarrow> job \<Rightarrow> bool" where
  "candidate b sys ps i j \<longleftrightarrow>
     i < length ps \<and> ps ! i = Some j \<and> Backend j = b \<and> System j = sys"

text \<open>
  The candidate \<open>j\<close> at index \<open>k\<close> has the smallest \<^verbatim>\<open>suiteWorkers\<close> count of all
  candidates, and every candidate before it has a strictly larger one.
\<close>

definition least_loaded ::
  "(suite_key \<Rightarrow> int) \<Rightarrow> backend \<Rightarrow> string \<Rightarrow> job option list \<Rightarrow> nat \<Rightarrow> job \<Rightarrow> bool" where
  "least_loaded sw b sys ps k j \<longleftrightarrow>
     (\<forall>k' j'. candidate b sys ps k' j' \<longrightarrow>
        sw (suiteWorkersKey j) \<le> sw (suiteWorkersKey j') \<and>
        (k' < k \<longrightarrow> sw (suiteWorkersKey j) < sw (suiteWorkersKey j')))"

section \<open>The runner state\<close>

text \<open>
  Modelled from the spec: the interface \<^verbatim>\<open>Server\<close> is declared in another file. A server
  is kept as what \<^verbatim>\<open>runner.go\<close> reads of it: the name of its provider's backend
  (\<^verbatim>\<open>server.Provider().Backend().Name\<close>) and its address (\<^verbatim>\<open>server.Address()\<close>).
\<close>

record server =
  Backend_server :: string
  Address :: string

text \<open>The eleven outcome lists; a list of \<^verbatim>\<open>*Job\<close> can hold nil.\<close>

record stats =
  TaskDone :: "job option list"
  TaskError :: "job option list"
  TaskAbort :: "job option list"
  TaskPrepareError :: "job option list"
  TaskRestoreError :: "job option list"
  SuitePrepareError :: "job option list"
  SuiteRestoreError :: "job option list"
  BackendPrepareError :: "job option list"
  BackendRestoreError :: "job option list"
  ProjectPrepareError :: "job option list"
  ProjectRestoreError :: "job option list"

text \<open>
  The \<^verbatim>\<open>Runner\<close>. The tomb is kept as its liveness flag, the \<^verbatim>\<open>done\<close> channel as the
  number of values waiting in it, and \<open>finished\<close> says that \<^verbatim>\<open>loop\<close> has returned and its
  deferred function has run. The providers are outside the runner: what they answer is
  given to the model as input.
\<close>

record runner =
  project :: project
  options :: options
  reused :: "string \<Rightarrow> bool"
  done_chan :: nat
  alive :: int
  servers :: "server list"
  pending :: "job option list"
  stats :: stats
  suiteWorkers :: "suite_key \<Rightarrow> int"
  tomb_alive :: bool
  finished :: bool

section \<open>The server acquirer\<close>

text \<open>
  The scan of \<^verbatim>\<open>options.Reuse[backend.Name]\<close> at the top of \<^verbatim>\<open>client\<close>. The loop has no
  \<^verbatim>\<open>break\<close>: every address not yet in \<^verbatim>\<open>reused\<close> is marked, and \<^verbatim>\<open>server\<close> is
  overwritten each time. The second component is the address of the last
  \<^verbatim>\<open>UnknownServer\<close> built, or \<open>None\<close> when \<^verbatim>\<open>reused\<close> stayed false.
\<close>

fun reuse_scan :: "string list \<Rightarrow> (string \<Rightarrow> bool) \<Rightarrow> string option \<Rightarrow> (string \<Rightarrow> bool) \<times> string option"
where
  "reuse_scan [] rd found = (rd, found)"
| "reuse_scan (addr # addrs) rd found =
     (if rd addr then reuse_scan addrs rd found
      else reuse_scan addrs (rd(addr := True)) (Some addr))"

text \<open>
  What \<^verbatim>\<open>provider.Allocate\<close> answers: a server, or an error with its message and whether
  it is a \<^verbatim>\<open>*FatalError\<close>. What the \<^verbatim>\<open>select\<close> after a failed attempt receives.
\<close>

datatype alloc_result = AllocOK server | AllocErr string bool

datatype select_event = RetryTick | RelogTick | Timeout | Dying

datatype alloc_outcome = Allocated server | AbortNil | GaveUp bool

text \<open>
  The loop labelled \<^verbatim>\<open>Allocate\<close>. The first argument is \<^verbatim>\<open>err\<close> on entry of an iteration
  (its message, and whether it is fatal). Each element of the list is the answer of one
  call of \<^verbatim>\<open>Allocate\<close> with the event its \<^verbatim>\<open>select\<close> receives if it is reached. \<open>None\<close>
  means that the list ended before the loop did. \<open>GaveUp d\<close> is the \<^verbatim>\<open>break Allocate\<close>
  with an error left, \<open>d\<close> telling that the tomb was dying.
\<close>

fun allocate_loop :: "(string \<times> bool) option \<Rightarrow> (alloc_result \<times> select_event) list \<Rightarrow> alloc_outcome option"
where
  "allocate_loop err [] = None"
| "allocate_loop err ((AllocOK s, ev) # rest) = Some (Allocated s)"
| "allocate_loop err ((AllocErr msg fatal, ev) # rest) =
     (let lerr = err in
      if (lerr = None \<or> map_option fst lerr \<noteq> Some msg) \<and> fatal then Some AbortNil
      else (case ev of
              RetryTick \<Rightarrow> allocate_loop (Some (msg, fatal)) rest
            | RelogTick \<Rightarrow> allocate_loop (Some (msg, fatal)) rest
            | Timeout \<Rightarrow> Some (GaveUp False)
            | Dying \<Rightarrow> Some (GaveUp True)))"

text \<open>The loop labelled \<^verbatim>\<open>Dial\<close>: \<open>Some (True, _)\<close> when a dial succeeded.\<close>

fun dial_loop :: "(bool \<times> select_event) list \<Rightarrow> (bool \<times> bool) option"
where
  "dial_loop [] = None"
| "dial_loop ((ok, ev) # rest) =
     (if ok then Some (True, False)
      else (case ev of
              RetryTick \<Rightarrow> dial_loop rest
            | RelogTick \<Rightarrow> dial_loop rest
            | Timeout \<Rightarrow> Some (False, False)
            | Dying \<Rightarrow> Some (False, True)))"

text \<open>
  The answers of the outside world during one pass of the outer loop of \<^verbatim>\<open>client\<close>:
  the allocation attempts, the dial attempts, \<^verbatim>\<open>WriteFile\<close>, \<^verbatim>\<open>ReadFile\<close>,
  \<^verbatim>\<open>provider.Reuse\<close>, \<^verbatim>\<open>MissingOrEmpty\<close> (\<open>None\<close> is an error) and \<^verbatim>\<open>Send\<close>.
\<close>

record pass_oracle =
  alloc_events :: "(alloc_result \<times> select_event) list"
  dial_events :: "(bool \<times> select_event) list"
  write_ok :: bool
  read_ok :: bool
  reuse_result :: "server option"
  missing_or_empty :: "bool option"
  send_ok :: bool

datatype srv = UnknownServer string | Known server

datatype pass_result = Retry | ReturnNil | ReturnClient server | Stuck

text \<open>
  Step 1 of a pass: claim a reuse address or allocate. The tomb is marked dead when a
  \<^verbatim>\<open>select\<close> saw it dying, so that the next test of \<^verbatim>\<open>tomb.Alive()\<close> fails.
\<close>

definition claim_or_allocate ::
  "runner \<Rightarrow> backend \<Rightarrow> pass_oracle \<Rightarrow> runner \<times> (pass_result + srv \<times> bool)"
where
  "claim_or_allocate r b orc =
     (case reuse_scan (lookup_list (Reuse (options r)) (Name_backend b)) (reused r) None of
        (rd, Some addr) \<Rightarrow> (r\<lparr>reused := rd\<rparr>, Inr (UnknownServer addr, True))
      | (rd, None) \<Rightarrow>
          if length (Reuse (options r)) > 0 then (r\<lparr>reused := rd\<rparr>, Inl ReturnNil)
          else (case allocate_loop None (alloc_events orc) of
                  None \<Rightarrow> (r\<lparr>reused := rd\<rparr>, Inl Stuck)
                | Some (Allocated s) \<Rightarrow> (r\<lparr>reused := rd\<rparr>, Inr (Known s, False))
                | Some AbortNil \<Rightarrow> (r\<lparr>reused := rd\<rparr>, Inl ReturnNil)
                | Some (GaveUp d) \<Rightarrow>
                    (r\<lparr>reused := rd, tomb_alive := tomb_alive r \<and> \<not> d\<rparr>, Inl Retry)))"

text \<open>
  The rest of a pass, from \<^verbatim>\<open>Dial\<close> on, for the server \<open>sv\<close>; \<open>ru\<close> is the local
  \<^verbatim>\<open>reused\<close>. Discarding a server and the files written are effects outside the runner
  and are not recorded.
\<close>

definition connect_and_send :: "runner \<Rightarrow> pass_oracle \<Rightarrow> srv \<Rightarrow> bool \<Rightarrow> runner \<times> pass_result"
where
  "connect_and_send r orc sv ru =
     (case dial_loop (dial_events orc) of
        None \<Rightarrow> (r, Stuck)
      | Some (False, d) \<Rightarrow> (r\<lparr>tomb_alive := tomb_alive r \<and> \<not> d\<rparr>, Retry)
      | Some (True, d) \<Rightarrow>
          if \<not> ru \<and> \<not> write_ok orc then (r, Retry)
          else
            (case (case sv of
                     Known s \<Rightarrow> Some s
                   | UnknownServer addr \<Rightarrow> (if read_ok orc then reuse_result orc else None)) of
               None \<Rightarrow> (r, Retry)
             | Some s \<Rightarrow>
                 (case (if ru \<and> Resend (options r) then Some True
                        else if ru then missing_or_empty orc
                        else Some True) of
                    None \<Rightarrow> (r, Retry)
                  | Some send \<Rightarrow>
                      if send \<and> \<not> send_ok orc then (r, Retry)
                      else (r\<lparr>servers := servers r @ [s]\<rparr>, ReturnClient s))))"

definition client_pass :: "runner \<Rightarrow> backend \<Rightarrow> pass_oracle \<Rightarrow> runner \<times> pass_result"
where
  "client_pass r b orc =
     (case claim_or_allocate r b orc of
        (r1, Inl res) \<Rightarrow> (r1, res)
      | (r1, Inr (sv, ru)) \<Rightarrow> connect_and_send r1 orc sv ru)"

text \<open>
  \<^verbatim>\<open>Runner.client\<close>: the outer loop, one oracle per pass. The result is \<open>Some (Some s)\<close>
  for a client on server \<open>s\<close>, \<open>Some None\<close> for nil, and \<open>None\<close> when the oracles ended
  before the loop did.
\<close>

fun client :: "runner \<Rightarrow> backend \<Rightarrow> pass_oracle list \<Rightarrow> runner \<times> server option option"
where
  "client r b [] = (if \<not> tomb_alive r then (r, Some None) else (r, None))"
| "client r b (orc # rest) =
     (if \<not> tomb_alive r then (r, Some None)
      else (case client_pass r b orc of
              (r1, Retry) \<Rightarrow> client r1 b rest
            | (r1, ReturnNil) \<Rightarrow> (r1, Some None)
            | (r1, ReturnClient s) \<Rightarrow> (r1, Some (Some s))
            | (r1, Stuck) \<Rightarrow> (r1, None)))"

section \<open>The reuse-args formatter\<close>

text \<open>
  The first loop of \<^verbatim>\<open>reuseArgs\<close>: every server adds its backend's name to
  \<^verbatim>\<open>backends\<close> and its address to \<^verbatim>\<open>reuse[backend]\<close>. The map is an association
  list with one entry per key.
\<close>

fun collect_servers ::
  "server list \<Rightarrow> (string \<times> string list) list \<Rightarrow> string list
    \<Rightarrow> (string \<times> string list) list \<times> string list"
where
  "collect_servers [] reuse backends = (reuse, backends)"
| "collect_servers (sv # svs) reuse backends =
     (let backend = Backend_server sv in
      collect_servers svs
        (AList.update backend (lookup_list reuse backend @ [Address sv]) reuse)
        (backends @ [backend]))"

fun write_addrs :: "string list \<Rightarrow> string \<Rightarrow> string" where
  "write_addrs [] buf = buf"
| "write_addrs (addr # addrs) buf = write_addrs addrs (buf @ addr @ '','')"

text \<open>
  The second loop, over the sorted \<^verbatim>\<open>backends\<close>. \<^verbatim>\<open>sort.Strings(addrs)\<close> sorts the
  slice held by the map in place. \<^verbatim>\<open>buf.Truncate(buf.Len() - 1)\<close> drops the last byte; the
  buffer is never empty there.
\<close>

fun write_groups :: "string list \<Rightarrow> (string \<times> string list) list \<Rightarrow> string \<Rightarrow> string" where
  "write_groups [] reuse buf = buf"
| "write_groups (backend # backends) reuse buf =
     (let buf1 = buf @ backend @ '':'';
          addrs = sort (lookup_list reuse backend);
          buf2 = write_addrs addrs buf1;
          buf3 = butlast buf2 @ '' ''
      in write_groups backends (AList.update backend addrs reuse) buf3)"

definition reuseArgs :: "runner \<Rightarrow> string" where
  "reuseArgs r =
     (case collect_servers (servers r) [] [] of
        (reuse, backends0) \<Rightarrow>
          let backends = sort backends0;
              buf1 = ''-pass='' @ Password (options r) @ '' -reuse='';
              buf2 = (if length reuse > 1 then buf1 @ [CHR 0x27] else buf1);
              buf3 = write_groups backends reuse buf2;
              buf4 = butlast buf3;
              buf5 = (if length reuse > 1 then buf4 @ [CHR 0x27] else buf4);
              buf6 = (if Keep (options r) then buf5 @ '' -keep'' else buf5)
          in if Debug (options r) then buf6 @ '' -debug''
             else if Shell (options r) then buf6 @ '' -shell''
             else if Abend (options r) then buf6 @ '' -abend''
             else if Restore (options r) then buf6 @ '' -restore''
             else buf6)"

section \<open>The supervisor's worker counts\<close>

type_synonym pair = "string \<times> string"

text \<open>
  The innermost loop of the count in \<^verbatim>\<open>loop\<close>, over the pending jobs, for one backend
  and one of its systems; the state is the map \<^verbatim>\<open>workers\<close> with \<^verbatim>\<open>r.alive\<close>. The list
  holds no nil when \<^verbatim>\<open>loop\<close> starts.
\<close>

fun count_jobs :: "backend \<Rightarrow> string \<Rightarrow> job list \<Rightarrow> (pair \<Rightarrow> int) \<times> int \<Rightarrow> (pair \<Rightarrow> int) \<times> int" where
  "count_jobs b sys [] (workers, al) = (workers, al)"
| "count_jobs b sys (j # js) (workers, al) =
     (if Backend j = b \<and> System j = sys then
        (let key = (Name_backend b, sys) in
         if lookup_int (SystemWorkers b) sys > workers key
         then count_jobs b sys js (workers(key := workers key + 1), al + 1)
         else (workers, al))
      else count_jobs b sys js (workers, al))"

text \<open>
  The two outer loops. \<^verbatim>\<open>project.Backends\<close> is a Go map, visited in no fixed order: the
  list is any order of its values.
\<close>

definition count_backend :: "job list \<Rightarrow> backend \<Rightarrow> (pair \<Rightarrow> int) \<times> int \<Rightarrow> (pair \<Rightarrow> int) \<times> int" where
  "count_backend js b st = fold (\<lambda>sys. count_jobs b sys js) (Systems b) st"

definition count_workers :: "backend list \<Rightarrow> job list \<Rightarrow> (pair \<Rightarrow> int) \<times> int" where
  "count_workers bs js = fold (count_backend js) bs (\<lambda>_. 0, 0)"

text \<open>The number of pending jobs of a backend and system.\<close>

definition jobs_of :: "backend \<Rightarrow> string \<Rightarrow> job list \<Rightarrow> int" where
  "jobs_of b sys js = int (length (filter (\<lambda>j. Backend j = b \<and> System j = sys) js))"

text \<open>
  Modelled from the spec: the loader of the project is in another file. In the data model
  the backends are named and the systems of a backend are a set. So the backends have
  different names and a backend lists each system once. The Go types alone would allow a
  system listed twice.
\<close>

definition distinct_systems :: "backend list \<Rightarrow> bool" where
  "distinct_systems bs \<longleftrightarrow>
     distinct (map Name_backend bs) \<and> (\<forall>b \<in> set bs. distinct (Systems b))"

section \<open>The worker\<close>

text \<open>
  One entry of a worker's history per call of \<^verbatim>\<open>run\<close>: the verb, the context, the
  returned bool and the calls made on the client.
\<close>

datatype event = Run (ev_verb: verb) (ev_ctx: ctx) (ev_ok: bool) (ev_calls: "client_call list")

text \<open>
  Where a worker goroutine stands: in \<^verbatim>\<open>r.client\<close>, at the top of its loop, holding a job
  it has just picked, after the loop, returned, or stopped by a nil dereference.
\<close>

datatype status = Acquiring | AtHead | Picked | Unwinding | Done | Crashed

text \<open>
  The arguments and local variables of \<^verbatim>\<open>worker\<close>, with the history of its calls of
  \<^verbatim>\<open>run\<close> and what the outside world will answer: \<open>trace_results w n\<close> is the outcome of
  \<^verbatim>\<open>client.Trace\<close> in the call of \<^verbatim>\<open>run\<close> number \<open>n\<close>, if that call gets there, and
  \<open>acquire_passes\<close> are the answers to \<^verbatim>\<open>r.client\<close>.
\<close>

record worker =
  backend_w :: backend
  system_w :: string
  status :: status
  abend :: bool
  badProject :: bool
  badSuite :: "suite \<Rightarrow> bool"
  insideProject :: bool
  insideBackend :: bool
  insideSuite :: "suite option"
  job_w :: "job option"
  last_w :: "job option"
  history :: "event list"
  trace_results :: "nat \<Rightarrow> bool"
  acquire_passes :: "pass_oracle list"
  server_w :: "server option"
  discarded :: bool

text \<open>\<^verbatim>\<open>r.add(&r.stats.X, job)\<close>, with the field given by its update function.\<close>

definition add ::
  "((job option list \<Rightarrow> job option list) \<Rightarrow> stats \<Rightarrow> stats) \<Rightarrow> job option \<Rightarrow> runner \<Rightarrow> runner"
where
  "add field j r = r\<lparr>stats := field (\<lambda>l. l @ [j]) (stats r)\<rparr>"

text \<open>A call of \<^verbatim>\<open>run\<close> by the worker, on a job that is not nil.\<close>

definition run_w :: "options \<Rightarrow> worker \<Rightarrow> job \<Rightarrow> verb \<Rightarrow> ctx \<Rightarrow> script \<Rightarrow> bool \<times> worker" where
  "run_w opts w j v c script =
     (case run opts j v c script (abend w) (trace_results w (length (history w))) of
        (ok, ab, calls) \<Rightarrow> (ok, w\<lparr>abend := ab, history := history w @ [Run v c ok calls]\<rparr>))"

text \<open>
  A call of \<^verbatim>\<open>run\<close> on \<^verbatim>\<open>last\<close>. With \<^verbatim>\<open>last\<close> nil, \<^verbatim>\<open>run\<close> still returns true for a blank
  script, and dereferences nil otherwise: the result is then \<open>None\<close>.
\<close>

definition run_last :: "options \<Rightarrow> worker \<Rightarrow> verb \<Rightarrow> ctx \<Rightarrow> script \<Rightarrow> (bool \<times> worker) option" where
  "run_last opts w v c script =
     (case last_w w of
        Some l \<Rightarrow> Some (run_w opts w l v c script)
      | None \<Rightarrow>
          if length (TrimSpace script) = 0
          then Some (True, w\<lparr>history := history w @ [Run v c True []]\<rparr>)
          else None)"

text \<open>
  The body of the loop is a sequence of parts. A part ends the iteration (\<^verbatim>\<open>continue\<close>,
  here \<open>Stop\<close>) or hands over to the next part (\<open>Go\<close>).
\<close>

datatype flow = Stop "runner \<times> worker" | Go "runner \<times> worker"

fun and_then :: "flow \<Rightarrow> (runner \<Rightarrow> worker \<Rightarrow> flow) \<Rightarrow> flow" where
  "and_then (Stop x) f = Stop x"
| "and_then (Go (r, w)) f = f r w"

fun end_flow :: "flow \<Rightarrow> runner \<times> worker" where
  "end_flow (Stop x) = x"
| "end_flow (Go x) = x"

text \<open>Lines 259 to 262: a job of a suite known as bad is aborted.\<close>

definition bad_suite_check :: "job \<Rightarrow> runner \<Rightarrow> worker \<Rightarrow> flow" where
  "bad_suite_check j r w =
     (if badSuite w (Suite j) then Stop (add TaskAbort_update (Some j) r, w) else Go (r, w))"

text \<open>Lines 264 to 276: the restore of the suite the worker leaves, and \<^verbatim>\<open>last = job\<close>.\<close>

definition suite_switch :: "job \<Rightarrow> runner \<Rightarrow> worker \<Rightarrow> flow" where
  "suite_switch j r w =
     (case insideSuite w of
        None \<Rightarrow> Go (r, w\<lparr>last_w := Some j\<rparr>)
      | Some s \<Rightarrow>
          if s \<noteq> Suite j then
            (case run_last (options r) w restoring (CtxSuite s) (Restore_suite s) of
               None \<Rightarrow> Stop (r, w\<lparr>status := Crashed\<rparr>)
             | Some (ok, w1) \<Rightarrow>
                 if \<not> ok
                 then Stop (add TaskAbort_update (Some j)
                              (add SuiteRestoreError_update (last_w w) r),
                            w1\<lparr>badProject := True\<rparr>)
                 else Go (r, w1\<lparr>insideSuite := None, last_w := Some j\<rparr>))
          else Go (r, w\<lparr>last_w := Some j\<rparr>))"

text \<open>
  Lines 278 to 294. Under the restore option \<^verbatim>\<open>run\<close> is not called, as \<^verbatim>\<open>&&\<close> does not
  evaluate its right side; the flags are set all the same.
\<close>

definition project_prepare :: "job \<Rightarrow> runner \<Rightarrow> worker \<Rightarrow> flow" where
  "project_prepare j r w =
     (let w1 = w\<lparr>insideProject := True\<rparr> in
      if Restore (options r) then Go (r, w1)
      else (case run_w (options r) w1 j preparing CtxProject (Prepare_project (project r)) of
              (ok, w2) \<Rightarrow>
                if \<not> ok
                then Stop (add TaskAbort_update (Some j)
                             (add ProjectPrepareError_update (Some j) r),
                           w2\<lparr>badProject := True\<rparr>)
                else Go (r, w2)))"

definition backend_prepare :: "job \<Rightarrow> runner \<Rightarrow> worker \<Rightarrow> flow" where
  "backend_prepare j r w =
     (let w1 = w\<lparr>insideBackend := True\<rparr> in
      if Restore (options r) then Go (r, w1)
      else (case run_w (options r) w1 j preparing (CtxBackend (backend_w w))
                   (Prepare_backend (backend_w w)) of
              (ok, w2) \<Rightarrow>
                if \<not> ok
                then Stop (add TaskAbort_update (Some j)
                             (add BackendPrepareError_update (Some j) r),
                           w2\<lparr>badProject := True\<rparr>)
                else Go (r, w2)))"

definition enter_project :: "job \<Rightarrow> runner \<Rightarrow> worker \<Rightarrow> flow" where
  "enter_project j r w =
     (if \<not> insideProject w then and_then (project_prepare j r w) (backend_prepare j)
      else Go (r, w))"

text \<open>Lines 296 to 304.\<close>

definition enter_suite :: "job \<Rightarrow> runner \<Rightarrow> worker \<Rightarrow> flow" where
  "enter_suite j r w =
     (if insideSuite w \<noteq> Some (Suite j) then
        (let w1 = w\<lparr>insideSuite := Some (Suite j)\<rparr> in
         if Restore (options r) then Go (r, w1)
         else (case run_w (options r) w1 j preparing (CtxSuite (Suite j))
                      (Prepare_suite (Suite j)) of
                 (ok, w2) \<Rightarrow>
                   if \<not> ok
                   then Stop (add TaskAbort_update (Some j)
                                (add SuitePrepareError_update (Some j) r),
                              w2\<lparr>badSuite := (badSuite w2)(Suite j := True)\<rparr>)
                   else Go (r, w2)))
      else Go (r, w))"

text \<open>Lines 306 to 315: the task's prepare and execute, not under the restore option.\<close>

definition task_run :: "job \<Rightarrow> runner \<Rightarrow> worker \<Rightarrow> flow" where
  "task_run j r w =
     (if Restore (options r) then Go (r, w)
      else (case run_w (options r) w j preparing (CtxJob j) (Prepare_task (Task j)) of
              (ok, w1) \<Rightarrow>
                if \<not> ok
                then Go (add TaskAbort_update (Some j)
                           (add TaskPrepareError_update (Some j) r), w1)
                else (case run_w (options r) w1 j executing (CtxJob j)
                             (Execute_task (Task j)) of
                        (ok2, w2) \<Rightarrow>
                          if ok2 then Go (add TaskDone_update (Some j) r, w2)
                          else Go (add TaskError_update (Some j) r, w2))))"

text \<open>Lines 316 to 319: the task's restore, unless \<^verbatim>\<open>abend\<close>.\<close>

definition task_restore :: "job \<Rightarrow> runner \<Rightarrow> worker \<Rightarrow> flow" where
  "task_restore j r w =
     (if \<not> abend w then
        (case run_w (options r) w j restoring (CtxJob j) (Restore_task (Task j)) of
           (ok, w1) \<Rightarrow>
             if \<not> ok then Go (add TaskRestoreError_update (Some j) r, w1\<lparr>badProject := True\<rparr>)
             else Go (r, w1))
      else Go (r, w))"

text \<open>Lines 259 to 319: the body of the loop for the picked job \<open>j\<close>.\<close>

definition loop_body :: "job \<Rightarrow> runner \<Rightarrow> worker \<Rightarrow> runner \<times> worker" where
  "loop_body j r w =
     end_flow
       (and_then (and_then (and_then (and_then (and_then
          (bad_suite_check j r w)
          (suite_switch j)) (enter_project j)) (enter_suite j)) (task_run j)) (task_restore j))"

text \<open>The worker runs the body and is back at the top of the loop.\<close>

definition worker_body :: "runner \<Rightarrow> worker \<Rightarrow> job \<Rightarrow> runner \<times> worker" where
  "worker_body r w j =
     (case loop_body j r w of
        (r1, w1) \<Rightarrow> (r1, if status w1 = Crashed then w1 else w1\<lparr>status := AtHead\<rparr>))"

text \<open>
  Lines 243 to 257, under the mutex: the count of the last job's suite goes down, the
  loop ends on \<^verbatim>\<open>badProject\<close>, \<^verbatim>\<open>abend\<close> or a dying tomb, and else a job is picked.
\<close>

definition worker_head :: "runner \<Rightarrow> worker \<Rightarrow> runner \<times> worker" where
  "worker_head r w =
     (let r1 = (case job_w w of
                  None \<Rightarrow> r
                | Some j \<Rightarrow>
                    r\<lparr>suiteWorkers := (suiteWorkers r)
                        (suiteWorkersKey j := suiteWorkers r (suiteWorkersKey j) - 1)\<rparr>) in
      if badProject w \<or> abend w \<or> \<not> tomb_alive r then (r1, w\<lparr>status := Unwinding\<rparr>)
      else
        (case job_pick (suiteWorkers r1) (pending r1) (backend_w w) (system_w w) (insideSuite w) of
           (None, ps) \<Rightarrow> (r1, w\<lparr>job_w := None, status := Unwinding\<rparr>)
         | (Some j, ps) \<Rightarrow>
             (r1\<lparr>pending := ps,
                 suiteWorkers := (suiteWorkers r1)
                   (suiteWorkersKey j := suiteWorkers r1 (suiteWorkersKey j) + 1)\<rparr>,
              w\<lparr>job_w := Some j, status := Picked\<rparr>)))"

text \<open>Lines 322 to 339: the restores after the loop, each one unless \<^verbatim>\<open>abend\<close>.\<close>

definition unwind_suite :: "runner \<Rightarrow> worker \<Rightarrow> runner \<times> worker" where
  "unwind_suite r w =
     (case insideSuite w of
        None \<Rightarrow> (r, w)
      | Some s \<Rightarrow>
          if \<not> abend w then
            (case run_last (options r) w restoring (CtxSuite s) (Restore_suite s) of
               None \<Rightarrow> (r, w\<lparr>status := Crashed\<rparr>)
             | Some (ok, w1) \<Rightarrow>
                 (if \<not> ok then add SuiteRestoreError_update (last_w w) r else r,
                  w1\<lparr>insideSuite := None\<rparr>))
          else (r, w))"

definition unwind_backend :: "runner \<Rightarrow> worker \<Rightarrow> runner \<times> worker" where
  "unwind_backend r w =
     (if status w = Crashed then (r, w)
      else if \<not> abend w \<and> insideBackend w then
        (case run_last (options r) w restoring (CtxBackend (backend_w w))
                (Restore_backend (backend_w w)) of
           None \<Rightarrow> (r, w\<lparr>status := Crashed\<rparr>)
         | Some (ok, w1) \<Rightarrow>
             (if \<not> ok then add BackendRestoreError_update (last_w w) r else r,
              w1\<lparr>insideBackend := False\<rparr>))
      else (r, w))"

definition unwind_project :: "runner \<Rightarrow> worker \<Rightarrow> runner \<times> worker" where
  "unwind_project r w =
     (if status w = Crashed then (r, w)
      else if \<not> abend w \<and> insideProject w then
        (case run_last (options r) w restoring CtxProject (Restore_project (project r)) of
           None \<Rightarrow> (r, w\<lparr>status := Crashed\<rparr>)
         | Some (ok, w1) \<Rightarrow>
             (if \<not> ok then add ProjectRestoreError_update (last_w w) r else r,
              w1\<lparr>insideProject := False\<rparr>))
      else (r, w))"

text \<open>
  Lines 340 to 347 and the deferred send on \<^verbatim>\<open>done\<close>: the server is discarded unless
  \<^verbatim>\<open>keep\<close> is set.
\<close>

definition worker_unwind :: "runner \<Rightarrow> worker \<Rightarrow> runner \<times> worker" where
  "worker_unwind r w =
     (case unwind_suite r w of
        (r1, w1) \<Rightarrow>
          (case unwind_backend r1 w1 of
             (r2, w2) \<Rightarrow>
               (case unwind_project r2 w2 of
                  (r3, w3) \<Rightarrow>
                    if status w3 = Crashed then (r3, w3)
                    else (r3\<lparr>done_chan := done_chan r3 + 1\<rparr>,
                          w3\<lparr>status := Done, discarded := \<not> Keep (options r)\<rparr>))))"

text \<open>
  Lines 225 to 228. With no client the worker returns at once. When the answers end
  before \<^verbatim>\<open>r.client\<close> returns, the worker stays in it.
\<close>

definition worker_acquire :: "runner \<Rightarrow> worker \<Rightarrow> runner \<times> worker" where
  "worker_acquire r w =
     (case client r (backend_w w) (acquire_passes w) of
        (r1, None) \<Rightarrow> (r1, w\<lparr>acquire_passes := []\<rparr>)
      | (r1, Some None) \<Rightarrow> (r1\<lparr>done_chan := done_chan r1 + 1\<rparr>, w\<lparr>status := Done\<rparr>)
      | (r1, Some (Some s)) \<Rightarrow> (r1, w\<lparr>status := AtHead, server_w := Some s\<rparr>))"

text \<open>
  One step of a worker. The head of the loop runs under the mutex and is one step. The
  body of the loop and the restores after it touch the shared state only through
  \<^verbatim>\<open>r.add\<close>, which appends to one list under the mutex, and read only the options and the
  project, which do not change: what other goroutines do meanwhile can change the order of
  the entries of a list, not which entries it gets. So each is taken as one step.
\<close>

definition worker_step :: "runner \<Rightarrow> worker \<Rightarrow> runner \<times> worker" where
  "worker_step r w =
     (case status w of
        Acquiring \<Rightarrow> worker_acquire r w
      | AtHead \<Rightarrow> worker_head r w
      | Picked \<Rightarrow> (case job_w w of None \<Rightarrow> (r, w) | Some j \<Rightarrow> worker_body r w j)
      | Unwinding \<Rightarrow> worker_unwind r w
      | Done \<Rightarrow> (r, w)
      | Crashed \<Rightarrow> (r, w))"

section \<open>The supervisor and the whole run\<close>

text \<open>The deferred function of \<^verbatim>\<open>loop\<close>: every slot still pending becomes a \<^verbatim>\<open>TaskAbort\<close>.\<close>

fun abort_pending :: "job option list \<Rightarrow> runner \<Rightarrow> runner" where
  "abort_pending [] r = r"
| "abort_pending (None # ps) r = abort_pending ps r"
| "abort_pending (Some j # ps) r = abort_pending ps (add TaskAbort_update (Some j) r)"

text \<open>
  One turn of the \<^verbatim>\<open>for\<close>/\<^verbatim>\<open>select\<close> of \<^verbatim>\<open>loop\<close>: a value is taken from \<^verbatim>\<open>done\<close>, and
  \<^verbatim>\<open>loop\<close> returns when \<^verbatim>\<open>alive\<close> is no longer positive. With nothing in the channel the
  supervisor waits.
\<close>

definition supervisor_recv :: "runner \<Rightarrow> runner" where
  "supervisor_recv r =
     (if finished r \<or> done_chan r = 0 then r
      else
        (let r1 = r\<lparr>done_chan := done_chan r - 1, alive := alive r - 1\<rparr> in
         if alive r1 > 0 then r1
         else (abort_pending (pending r1) r1)\<lparr>finished := True\<rparr>))"

text \<open>
  What happens next: worker number \<open>i\<close> takes a step, the supervisor takes one, or the
  tomb is killed from outside. After a nil dereference nothing runs any more.
\<close>

datatype sched = Step nat | Recv | Kill

fun sys_step :: "sched \<Rightarrow> runner \<times> worker list \<Rightarrow> runner \<times> worker list" where
  "sys_step e (r, ws) =
     (if list_ex (\<lambda>w. status w = Crashed) ws then (r, ws)
      else (case e of
              Kill \<Rightarrow> (r\<lparr>tomb_alive := False\<rparr>, ws)
            | Recv \<Rightarrow> (supervisor_recv r, ws)
            | Step i \<Rightarrow>
                if i < length ws
                then (case worker_step r (ws ! i) of (r1, w1) \<Rightarrow> (r1, ws[i := w1]))
                else (r, ws)))"

definition run_schedule :: "sched list \<Rightarrow> runner \<times> worker list \<Rightarrow> runner \<times> worker list" where
  "run_schedule sch st = fold sys_step sch st"

text \<open>
  The start of \<^verbatim>\<open>loop\<close>: the counts, and one worker per count for every backend and
  system. \<open>env i\<close> holds what the outside world answers to worker number \<open>i\<close>.
\<close>

definition spawn :: "backend list \<Rightarrow> (pair \<Rightarrow> int) \<Rightarrow> (backend \<times> string) list" where
  "spawn bs workers =
     concat (map (\<lambda>b. concat (map (\<lambda>sys. replicate (nat (workers (Name_backend b, sys))) (b, sys))
                                 (Systems b))) bs)"

definition init_worker :: "backend \<Rightarrow> string \<Rightarrow> (nat \<Rightarrow> bool) \<times> pass_oracle list \<Rightarrow> worker" where
  "init_worker b sys orc =
     \<lparr>backend_w = b, system_w = sys, status = Acquiring, abend = False, badProject = False,
      badSuite = (\<lambda>_. False), insideProject = False, insideBackend = False, insideSuite = None,
      job_w = None, last_w = None, history = [], trace_results = fst orc,
      acquire_passes = snd orc, server_w = None, discarded = False\<rparr>"

definition no_stats :: stats where
  "no_stats = \<lparr>TaskDone = [], TaskError = [], TaskAbort = [], TaskPrepareError = [],
     TaskRestoreError = [], SuitePrepareError = [], SuiteRestoreError = [],
     BackendPrepareError = [], BackendRestoreError = [], ProjectPrepareError = [],
     ProjectRestoreError = []\<rparr>"

definition loop_start ::
  "project \<Rightarrow> options \<Rightarrow> job list \<Rightarrow> (nat \<Rightarrow> (nat \<Rightarrow> bool) \<times> pass_oracle list)
    \<Rightarrow> runner \<times> worker list"
where
  "loop_start p opts js env =
     (case count_workers (Backends p) js of
        (workers, al) \<Rightarrow>
          (\<lparr>project = p, options = opts, reused = (\<lambda>_. False), done_chan = 0, alive = al,
            servers = [], pending = map Some js, stats = no_stats, suiteWorkers = (\<lambda>_. 0),
            tomb_alive = True, finished = False\<rparr>,
           map (\<lambda>(i, (b, sys)). init_worker b sys (env i))
             (enumerate 0 (spawn (Backends p) workers))))"

section \<open>Properties of a worker's history\<close>

text \<open>
  Some entry of the history opens, and no later entry closes. \<open>track\<close> follows the same
  fact along further entries.
\<close>

definition pending_since :: "(event \<Rightarrow> bool) \<Rightarrow> (event \<Rightarrow> bool) \<Rightarrow> event list \<Rightarrow> bool" where
  "pending_since opens closes h \<longleftrightarrow>
     (\<exists>i<length h. opens (h ! i) \<and> (\<forall>k. i < k \<and> k < length h \<longrightarrow> \<not> closes (h ! k)))"

fun track :: "(event \<Rightarrow> bool) \<Rightarrow> (event \<Rightarrow> bool) \<Rightarrow> bool \<Rightarrow> event list \<Rightarrow> bool" where
  "track opens closes b [] = b"
| "track opens closes b (e # es) = track opens closes (opens e \<or> (b \<and> \<not> closes e)) es"

text \<open>
  \<open>owes h c\<close>: \<^verbatim>\<open>run\<close> was called to prepare the context \<open>c\<close> and has not been called since
  to restore it. \<open>prepared h c\<close>: \<^verbatim>\<open>run\<close> was called to prepare \<open>c\<close> and no restore of \<open>c\<close>
  has succeeded since.
\<close>

definition owes :: "event list \<Rightarrow> ctx \<Rightarrow> bool" where
  "owes h c = pending_since (\<lambda>e. ev_verb e = preparing \<and> ev_ctx e = c)
                            (\<lambda>e. ev_verb e = restoring \<and> ev_ctx e = c) h"

definition prepared :: "event list \<Rightarrow> ctx \<Rightarrow> bool" where
  "prepared h c = pending_since (\<lambda>e. ev_verb e = preparing \<and> ev_ctx e = c)
                                (\<lambda>e. ev_verb e = restoring \<and> ev_ctx e = c \<and> ev_ok e) h"

text \<open>
  \<^verbatim>\<open>abend\<close> is set only under the abend option, by a failed call of \<^verbatim>\<open>run\<close> that is
  the last call so far. The restores a worker still owes are those of the levels it is
  inside; it owes the restore of a task only once \<^verbatim>\<open>abend\<close> is set, and then for the
  task of \<^verbatim>\<open>last\<close>.
\<close>

definition restore_inv :: "options \<Rightarrow> worker \<Rightarrow> bool" where
  "restore_inv opts w \<longleftrightarrow>
     (abend w \<longrightarrow> Abend opts \<and> history w \<noteq> [] \<and> \<not> ev_ok (last (history w))) \<and>
     (owes (history w) CtxProject \<longrightarrow> insideProject w) \<and>
     (\<forall>b. owes (history w) (CtxBackend b) \<longrightarrow> insideBackend w \<and> b = backend_w w) \<and>
     (\<forall>s. owes (history w) (CtxSuite s) \<longrightarrow> insideSuite w = Some s) \<and>
     (\<forall>j. owes (history w) (CtxJob j) \<longrightarrow> abend w \<and> last_w w = Some j)"

text \<open>Every level the worker is inside has had its prepare called.\<close>

definition prepared_inv :: "worker \<Rightarrow> bool" where
  "prepared_inv w \<longleftrightarrow>
     (insideProject w \<longrightarrow> prepared (history w) CtxProject) \<and>
     (insideBackend w \<longrightarrow> prepared (history w) (CtxBackend (backend_w w))) \<and>
     (\<forall>s. insideSuite w = Some s \<longrightarrow> prepared (history w) (CtxSuite s))"

text \<open>A flow ends in a state that satisfies \<open>S\<close> if it stopped and \<open>G\<close> if it goes on.\<close>

definition flow_sat :: "(runner \<Rightarrow> worker \<Rightarrow> bool) \<Rightarrow> (runner \<Rightarrow> worker \<Rightarrow> bool) \<Rightarrow> flow \<Rightarrow> bool" where
  "flow_sat S G f = (case f of Stop (r, w) \<Rightarrow> S r w | Go (r, w) \<Rightarrow> G r w)"

text \<open>
  Assertions on the worker between the parts of the loop body: it has not dereferenced nil
  and \<^verbatim>\<open>last\<close> is set once a level is entered; the restores it owes; the levels it
  has prepared; under the restore option, nothing but restores.
\<close>

definition last_inv :: "worker \<Rightarrow> bool" where
  "last_inv w \<longleftrightarrow> status w \<noteq> Crashed \<and>
     (insideProject w \<or> insideBackend w \<or> insideSuite w \<noteq> None \<longrightarrow> last_w w \<noteq> None)"

definition owed_go :: "options \<Rightarrow> runner \<Rightarrow> worker \<Rightarrow> bool" where
  "owed_go opts r w \<longleftrightarrow> options r = opts \<and> restore_inv opts w \<and> \<not> abend w"

definition owed_stop :: "options \<Rightarrow> runner \<Rightarrow> worker \<Rightarrow> bool" where
  "owed_stop opts r w \<longleftrightarrow> status w = Crashed \<or> (options r = opts \<and> restore_inv opts w)"

definition owed_task :: "options \<Rightarrow> job \<Rightarrow> runner \<Rightarrow> worker \<Rightarrow> bool" where
  "owed_task opts j r w \<longleftrightarrow> options r = opts \<and>
     (if abend w then restore_inv opts w
      else restore_inv opts (w\<lparr>history := history w @ [Run restoring (CtxJob j) True []]\<rparr>))"

definition prep_ok :: "options \<Rightarrow> runner \<Rightarrow> worker \<Rightarrow> bool" where
  "prep_ok opts r w \<longleftrightarrow> options r = opts \<and> prepared_inv w"

definition only_restores :: "worker \<Rightarrow> bool" where
  "only_restores w \<longleftrightarrow> (\<forall>e \<in> set (history w). ev_verb e = restoring)"

definition restores_ok :: "options \<Rightarrow> runner \<Rightarrow> worker \<Rightarrow> bool" where
  "restores_ok opts r w \<longleftrightarrow> options r = opts \<and> only_restores w"

text \<open>The fields of the runner that the server acquirer leaves alone.\<close>

definition outside_frame :: "runner \<Rightarrow> runner \<Rightarrow> bool" where
  "outside_frame r r' \<longleftrightarrow>
     project r' = project r \<and> options r' = options r \<and> done_chan r' = done_chan r \<and>
     alive r' = alive r \<and> pending r' = pending r \<and> stats r' = stats r \<and>
     suiteWorkers r' = suiteWorkers r \<and> finished r' = finished r"

text \<open>The worker is inside no level.\<close>

definition flags_off :: "worker \<Rightarrow> bool" where
  "flags_off w \<longleftrightarrow> \<not> insideProject w \<and> \<not> insideBackend w \<and> insideSuite w = None"

text \<open>
  What holds of every worker between its steps. After the loop a worker is inside no
  level, unless \<^verbatim>\<open>abend\<close> stopped the restores.
\<close>

definition worker_ok :: "options \<Rightarrow> worker \<Rightarrow> bool" where
  "worker_ok opts w \<longleftrightarrow>
     last_inv w \<and> restore_inv opts w \<and>
     (\<not> Restore opts \<longrightarrow> prepared_inv w) \<and>
     (Restore opts \<longrightarrow> only_restores w) \<and>
     (status w = Picked \<longrightarrow> \<not> abend w) \<and>
     (status w = Acquiring \<or> (status w = Done \<and> \<not> abend w) \<longrightarrow> flags_off w)"

text \<open>The restores owed while the worker unwinds: which levels have been left so far.\<close>

definition owed_unwound :: "options \<Rightarrow> bool \<Rightarrow> bool \<Rightarrow> bool \<Rightarrow> runner \<Rightarrow> worker \<Rightarrow> bool" where
  "owed_unwound opts s b p r w \<longleftrightarrow>
     status w = Crashed \<or>
     (options r = opts \<and> restore_inv opts w \<and>
      (\<not> abend w \<longrightarrow> (s \<longrightarrow> insideSuite w = None) \<and> (b \<longrightarrow> \<not> insideBackend w) \<and>
          (p \<longrightarrow> \<not> insideProject w)))"

text \<open>The options are those of the start and every worker is in order.\<close>

definition all_ok :: "options \<Rightarrow> runner \<times> worker list \<Rightarrow> bool" where
  "all_ok opts st \<longleftrightarrow> options (fst st) = opts \<and> list_all (worker_ok opts) (snd st)"

section \<open>What the calls of run hand to the client\<close>

text \<open>
  The script the worker passes to \<^verbatim>\<open>run\<close> with a verb and a context: the prepare, execute
  or restore script of the project, the backend, the suite or the job's task. Only a
  task is executed.
\<close>

definition script_of :: "project \<Rightarrow> verb \<Rightarrow> ctx \<Rightarrow> script" where
  "script_of p v c =
     (case v of
        preparing \<Rightarrow>
          (case c of CtxProject \<Rightarrow> Prepare_project p | CtxBackend b \<Rightarrow> Prepare_backend b
           | CtxSuite s \<Rightarrow> Prepare_suite s | CtxJob j \<Rightarrow> Prepare_task (Task j))
      | executing \<Rightarrow>
          (case c of CtxProject \<Rightarrow> [] | CtxBackend b \<Rightarrow> []
           | CtxSuite s \<Rightarrow> [] | CtxJob j \<Rightarrow> Execute_task (Task j))
      | restoring \<Rightarrow>
          (case c of CtxProject \<Rightarrow> Restore_project p | CtxBackend b \<Rightarrow> Restore_backend b
           | CtxSuite s \<Rightarrow> Restore_suite s | CtxJob j \<Rightarrow> Restore_task (Task j)))"

text \<open>
  An entry of the history is \<open>traced\<close> when the calls it records are those of the script
  of its verb and context: none for a blank script; else the trimmed script is given to
  \<^verbatim>\<open>client.Trace\<close>, followed by the debug shell when it fails under the debug option;
  under the shell option an execute opens the shell instead.
\<close>

definition traced :: "project \<Rightarrow> options \<Rightarrow> event \<Rightarrow> bool" where
  "traced p opts e \<longleftrightarrow>
     (let s = TrimSpace (script_of p (ev_verb e) (ev_ctx e)) in
      if s = [] then ev_ok e \<and> ev_calls e = []
      else if Shell opts \<and> ev_verb e = executing
        then ev_ok e \<and> (case ev_calls e of [CallShell d] \<Rightarrow> True | _ \<Rightarrow> False)
      else (case ev_calls e of
              CallTrace s' d # rest \<Rightarrow>
                s' = s \<and> rest = (if \<not> ev_ok e \<and> Debug opts then [CallShell d] else [])
            | _ \<Rightarrow> False))"

definition all_traced :: "project \<Rightarrow> options \<Rightarrow> runner \<Rightarrow> worker \<Rightarrow> bool" where
  "all_traced p opts r w \<longleftrightarrow>
     project r = p \<and> options r = opts \<and> list_all (traced p opts) (history w)"

text \<open>
  The level of the context \<open>c\<close> is one the worker has not left: the project, its backend
  or its suite by the flags, a job as the value of \<^verbatim>\<open>last\<close>.
\<close>

definition still_inside :: "worker \<Rightarrow> ctx \<Rightarrow> bool" where
  "still_inside w c =
     (case c of
        CtxProject \<Rightarrow> insideProject w
      | CtxBackend b \<Rightarrow> insideBackend w \<and> b = backend_w w
      | CtxSuite s \<Rightarrow> insideSuite w = Some s
      | CtxJob j \<Rightarrow> last_w w = Some j)"

section \<open>Levels whose prepare has succeeded\<close>

text \<open>
  \<open>prepared_well h c\<close>: a call of \<^verbatim>\<open>run\<close> to prepare \<open>c\<close> has succeeded, and since then
  no prepare of \<open>c\<close> has failed and \<^verbatim>\<open>run\<close> has not been called to restore \<open>c\<close>.
\<close>

definition prepared_well :: "event list \<Rightarrow> ctx \<Rightarrow> bool" where
  "prepared_well h c =
     pending_since (\<lambda>e. ev_verb e = preparing \<and> ev_ctx e = c \<and> ev_ok e)
       (\<lambda>e. ev_ctx e = c \<and> (ev_verb e = restoring \<or> (ev_verb e = preparing \<and> \<not> ev_ok e))) h"

text \<open>
  A level the worker is inside has been prepared with success, as long as the worker has
  not marked the project, or for a suite that suite, as bad.
\<close>

definition prepared_well_inv :: "worker \<Rightarrow> bool" where
  "prepared_well_inv w \<longleftrightarrow>
     (insideProject w \<and> \<not> badProject w \<longrightarrow> prepared_well (history w) CtxProject) \<and>
     (insideBackend w \<and> \<not> badProject w \<longrightarrow>
        prepared_well (history w) (CtxBackend (backend_w w))) \<and>
     (\<forall>s. insideSuite w = Some s \<and> \<not> badSuite w s \<and> \<not> badProject w \<longrightarrow>
        prepared_well (history w) (CtxSuite s))"

definition well_ok :: "options \<Rightarrow> runner \<Rightarrow> worker \<Rightarrow> bool" where
  "well_ok opts r w \<longleftrightarrow> options r = opts \<and> prepared_well_inv w"

section \<open>The restores of a run under the restore option\<close>

text \<open>The contexts of the last \<open>n\<close> calls of \<^verbatim>\<open>run\<close>, in the order of the calls.\<close>

definition last_ctxs :: "nat \<Rightarrow> event list \<Rightarrow> ctx list" where
  "last_ctxs n h = rev (take n (rev (map ev_ctx h)))"

text \<open>
  Under the restore option the worker is inside no level before its first job, and from
  then on inside the project, its backend and the suite of \<^verbatim>\<open>last\<close>.
\<close>

definition entered :: "worker \<Rightarrow> bool" where
  "entered w \<longleftrightarrow>
     (case last_w w of
        None \<Rightarrow> flags_off w
      | Some l \<Rightarrow> insideProject w \<and> insideBackend w \<and> insideSuite w = Some (Suite l))"

text \<open>
  What the iteration for the job \<open>j\<close> has left as the last call of \<^verbatim>\<open>run\<close>: the restore
  of the task of \<open>j\<close>, or the failed restore of another suite, the one the worker was
  leaving and is still inside, with \<^verbatim>\<open>badProject\<close> set.
\<close>

definition job_settled :: "worker \<Rightarrow> job \<Rightarrow> bool" where
  "job_settled w j \<longleftrightarrow>
     history w \<noteq> [] \<and> ev_verb (last (history w)) = restoring \<and>
     (case ev_ctx (last (history w)) of
        CtxJob j' \<Rightarrow> j' = j
      | CtxSuite s \<Rightarrow>
          badProject w \<and> \<not> ev_ok (last (history w)) \<and> s \<noteq> Suite j \<and> insideSuite w = Some s
      | CtxProject \<Rightarrow> False
      | CtxBackend b \<Rightarrow> False)"

text \<open>The contexts of the restores after the loop, for a worker whose last job is \<open>l\<close>.\<close>

definition unwound :: "worker \<Rightarrow> bool" where
  "unwound w \<longleftrightarrow>
     (case last_w w of
        None \<Rightarrow> True
      | Some l \<Rightarrow>
          last_ctxs 3 (history w) = [CtxSuite (Suite l), CtxBackend (backend_w w), CtxProject])"

text \<open>What holds of a worker between its steps under the restore option.\<close>

definition restore_shape :: "worker \<Rightarrow> bool" where
  "restore_shape w \<longleftrightarrow>
     (\<forall>s. \<not> badSuite w s) \<and>
     (status w = Acquiring \<longrightarrow> job_w w = None \<and> last_w w = None) \<and>
     (status w \<noteq> Done \<longrightarrow> entered w) \<and>
     (status w = AtHead \<longrightarrow> (case job_w w of None \<Rightarrow> True | Some j \<Rightarrow> job_settled w j)) \<and>
     (status w = Done \<and> \<not> abend w \<longrightarrow> unwound w)"

text \<open>
  The assertions between the parts of the loop body under the restore option: no suite
  is bad and \<^verbatim>\<open>abend\<close> is not set; then \<^verbatim>\<open>last\<close> is the job, and the levels entered
  so far.
\<close>

definition shape_go :: "options \<Rightarrow> runner \<Rightarrow> worker \<Rightarrow> bool" where
  "shape_go opts r w \<longleftrightarrow> options r = opts \<and> (\<forall>s. \<not> badSuite w s) \<and> \<not> abend w"

definition shape_in :: "options \<Rightarrow> job \<Rightarrow> bool \<Rightarrow> bool \<Rightarrow> runner \<Rightarrow> worker \<Rightarrow> bool" where
  "shape_in opts j pr bk r w \<longleftrightarrow>
     shape_go opts r w \<and> last_w w = Some j \<and>
     (insideSuite w = None \<or> insideSuite w = Some (Suite j)) \<and>
     (pr \<longrightarrow> insideProject w) \<and> (bk \<longrightarrow> insideBackend w) \<and>
     (insideProject w \<longrightarrow> pr \<or> insideBackend w)"

definition shape_stop :: "options \<Rightarrow> job \<Rightarrow> runner \<Rightarrow> worker \<Rightarrow> bool" where
  "shape_stop opts j r w \<longleftrightarrow>
     options r = opts \<and> (\<forall>s. \<not> badSuite w s) \<and> entered w \<and> job_settled w j"

text \<open>The restores run so far after the loop, unless \<^verbatim>\<open>abend\<close> has stopped them.\<close>

definition shape_unwound :: "nat \<Rightarrow> runner \<Rightarrow> worker \<Rightarrow> bool" where
  "shape_unwound n r w \<longleftrightarrow>
     (\<forall>s. \<not> badSuite w s) \<and>
     (status w \<noteq> Crashed \<and> \<not> abend w \<longrightarrow>
        (case last_w w of
           None \<Rightarrow> flags_off w
         | Some l \<Rightarrow>
             (n < 3 \<longrightarrow> insideProject w) \<and> (n < 2 \<longrightarrow> insideBackend w) \<and>
             (n < 1 \<longrightarrow> insideSuite w = Some (Suite l)) \<and>
             last_ctxs n (history w) =
               take n [CtxSuite (Suite l), CtxBackend (backend_w w), CtxProject]))"

text \<open>
  What holds of every worker between its steps, besides \<open>worker_ok\<close>, in a run of the
  project \<open>p\<close>; and of the whole system.
\<close>

definition worker_more :: "project \<Rightarrow> options \<Rightarrow> worker \<Rightarrow> bool" where
  "worker_more p opts w \<longleftrightarrow>
     list_all (traced p opts) (history w) \<and>
     (\<not> Restore opts \<longrightarrow> prepared_well_inv w) \<and>
     (Restore opts \<longrightarrow> restore_shape w)"

definition all_more :: "project \<Rightarrow> options \<Rightarrow> runner \<times> worker list \<Rightarrow> bool" where
  "all_more p opts st \<longleftrightarrow>
     project (fst st) = p \<and> all_ok opts st \<and> list_all (worker_more p opts) (snd st)"

section \<open>Accounting of the jobs\<close>

text \<open>The jobs recorded as done, failed or aborted.\<close>

definition accounted :: "runner \<Rightarrow> nat" where
  "accounted r = length (TaskDone (stats r)) + length (TaskError (stats r)) +
                 length (TaskAbort (stats r))"

text \<open>The fields of the runner that the loop body leaves alone.\<close>

definition stats_frame :: "runner \<Rightarrow> runner \<Rightarrow> bool" where
  "stats_frame r r' \<longleftrightarrow>
     project r' = project r \<and> options r' = options r \<and> done_chan r' = done_chan r \<and>
     alive r' = alive r \<and> pending r' = pending r \<and> finished r' = finished r"

text \<open>
  The assertions between the parts of the loop body, from the runner \<open>r0\<close>: so far
  \<open>k\<close> more jobs are recorded; at the end it is one, unless the worker has crashed.
\<close>

definition acc_go :: "runner \<Rightarrow> nat \<Rightarrow> runner \<Rightarrow> worker \<Rightarrow> bool" where
  "acc_go r0 k r w \<longleftrightarrow> stats_frame r0 r \<and> accounted r = accounted r0 + k"

definition acc_stop :: "runner \<Rightarrow> runner \<Rightarrow> worker \<Rightarrow> bool" where
  "acc_stop r0 r w \<longleftrightarrow>
     stats_frame r0 r \<and> (status w = Crashed \<or> accounted r = accounted r0 + 1)"

text \<open>
  The slots of the pending list not yet cleared; whether a worker holds a picked job;
  whether it has returned.
\<close>

definition n_pending :: "runner \<Rightarrow> nat" where
  "n_pending r = length (filter (\<lambda>x. x \<noteq> None) (pending r))"

definition picked :: "worker \<Rightarrow> nat" where
  "picked w = (if status w = Picked then 1 else 0)"

definition is_done :: "worker \<Rightarrow> nat" where
  "is_done w = (if status w = Done then 1 else 0)"

text \<open>
  Every job is recorded, pending or held by a worker, and \<^verbatim>\<open>alive\<close> counts the workers
  whose \<^verbatim>\<open>done\<close> the supervisor has not received; once \<^verbatim>\<open>loop\<close> has returned every job
  is recorded.
\<close>

definition run_inv :: "nat \<Rightarrow> runner \<times> worker list \<Rightarrow> bool" where
  "run_inv N st \<longleftrightarrow>
     (case st of (r, ws) \<Rightarrow>
        list_ex (\<lambda>w. status w = Crashed) ws \<or>
        (if finished r then accounted r = N \<and> list_all (\<lambda>w. status w = Done) ws
         else accounted r + n_pending r + sum_list (map picked ws) = N \<and>
              alive r + int (sum_list (map is_done ws)) = int (length ws) + int (done_chan r)))"

text \<open>
  The workers one step of the count grants to a backend and system whose count is \<open>c\<close>
  so far, and the total over the systems of a backend.
\<close>

definition grant :: "backend \<Rightarrow> string \<Rightarrow> job list \<Rightarrow> int \<Rightarrow> int" where
  "grant b sys js c = max 0 (min (lookup_int (SystemWorkers b) sys - c) (jobs_of b sys js))"

definition backend_total :: "job list \<Rightarrow> (pair \<Rightarrow> int) \<Rightarrow> backend \<Rightarrow> int" where
  "backend_total js w b = (\<Sum>sys\<leftarrow>Systems b. grant b sys js (w (Name_backend b, sys)))"

section \<open>Example data\<close>

definition ex_script :: script where
  "ex_script = [108, 115]"

definition ex_backend :: backend where
  "ex_backend = \<lparr>Name_backend = ''lxd'', Type_backend = ''lxd'', Systems = [''ubuntu''],
     SystemWorkers = [(''ubuntu'', 2)], Prepare_backend = ex_script, Restore_backend = ex_script\<rparr>"

definition ex_suite1 :: suite where
  "ex_suite1 = \<lparr>Name_suite = ''s1'', Prepare_suite = ex_script, Restore_suite = ex_script\<rparr>"

definition ex_suite2 :: suite where
  "ex_suite2 = \<lparr>Name_suite = ''s2'', Prepare_suite = ex_script, Restore_suite = ex_script\<rparr>"

definition ex_task :: task where
  "ex_task = \<lparr>Name_task = ''t1'', Prepare_task = ex_script, Execute_task = ex_script,
     Restore_task = ex_script\<rparr>"

definition ex_job1 :: job where
  "ex_job1 = \<lparr>Backend = ex_backend, System = ''ubuntu'', Suite = ex_suite1, Task = ex_task,
     Variant = [], Environment = []\<rparr>"

definition ex_job2 :: job where
  "ex_job2 = \<lparr>Backend = ex_backend, System = ''ubuntu'', Suite = ex_suite2, Task = ex_task,
     Variant = [], Environment = []\<rparr>"

definition ex_options :: options where
  "ex_options = \<lparr>Password = ''pw'', Reuse = [], Keep = False, Debug = False, Shell = False,
     Abend = False, Restore = False, Resend = False, Discard = False\<rparr>"

definition ex_server1 :: server where
  "ex_server1 = \<lparr>Backend_server = ''lxd'', Address = ''10.0.0.1''\<rparr>"

definition ex_server2 :: server where
  "ex_server2 = \<lparr>Backend_server = ''lxd'', Address = ''10.0.0.2''\<rparr>"

definition ex_project :: project where
  "ex_project = \<lparr>RemotePath = ''/home/test'', Prepare_project = ex_script,
     Restore_project = ex_script, Backends = [ex_backend]\<rparr>"

definition ex_runner :: runner where
  "ex_runner = \<lparr>project = ex_project, options = ex_options, reused = (\<lambda>_. False), done_chan = 0,
     alive = 0, servers = [], pending = [], stats = no_stats, suiteWorkers = (\<lambda>_. 0),
     tomb_alive = True, finished = False\<rparr>"

text \<open>A pass in which every outside call succeeds and the remote project directory is not empty.\<close>

definition ex_pass :: "server \<Rightarrow> pass_oracle" where
  "ex_pass s = \<lparr>alloc_events = [], dial_events = [(True, RetryTick)], write_ok = True,
     read_ok = True, reuse_result = Some s, missing_or_empty = Some False, send_ok = True\<rparr>"

definition ex_runner_reuse :: runner where
  "ex_runner_reuse =
     ex_runner\<lparr>options := ex_options\<lparr>Reuse := [(''lxd'', [''10.0.0.1'', ''10.0.0.2''])]\<rparr>\<rparr>"

text \<open>
  A pass that allocates a server at once, and answers for worker \<open>i\<close> in which only the
  call of \<^verbatim>\<open>run\<close> number \<open>k\<close> fails.
\<close>

definition ex_alloc_pass :: pass_oracle where
  "ex_alloc_pass = \<lparr>alloc_events = [(AllocOK ex_server1, RetryTick)],
     dial_events = [(True, RetryTick)], write_ok = True, read_ok = True, reuse_result = None,
     missing_or_empty = None, send_ok = True\<rparr>"

definition ex_env :: "nat \<Rightarrow> nat \<Rightarrow> (nat \<Rightarrow> bool) \<times> pass_oracle list" where
  "ex_env k i = (\<lambda>n. n \<noteq> k, [ex_alloc_pass])"

section \<open>Properties of the run helper\<close>

lemma TrimSpace_all_space:
  assumes "\<forall>c \<in> set s. IsSpace c"
  shows "TrimSpace s = []"
proof -
  from assms have h: "dropWhile IsSpace s = []" by simp
  show ?thesis unfolding TrimSpace_def h by simp
qed

text \<open>
  Claim C10. When the script is empty or holds only white space, \<^verbatim>\<open>run\<close> returns true,
  leaves \<^verbatim>\<open>abend\<close> as it was and calls neither \<^verbatim>\<open>client.Trace\<close> nor \<^verbatim>\<open>client.Shell\<close>,
  whatever the options and the verb: also under the shell option with the verb executing.
\<close>

theorem run_blank_script:
  assumes "\<forall>c \<in> set script. IsSpace c"
  shows "run opts j v c script ab trace_ok = (True, ab, [])"
  using TrimSpace_all_space[OF assms] by (simp add: run_def)

theorem run_blank_script_witness:
  "IsSpace 32 \<and> IsSpace 9 \<and> IsSpace 10 \<and>
   run (ex_options\<lparr>Shell := True\<rparr>) ex_job1 executing (CtxJob ex_job1) [32, 9, 10] False False
     = (True, False, [])"
proof -
  have h: "\<forall>c \<in> set [32, 9, 10]. IsSpace c" by (simp add: IsSpace_def)
  show ?thesis using h run_blank_script[OF h] by simp
qed

section \<open>Properties of the job picker\<close>

lemma candidate_Nil: "\<not> candidate b sys [] k j"
  by (simp add: candidate_def)

lemma candidate_0: "candidate b sys (x # ps) 0 j \<longleftrightarrow> x = Some j \<and> Backend j = b \<and> System j = sys"
  by (simp add: candidate_def)

lemma candidate_Suc: "candidate b sys (x # ps) (Suc k) j \<longleftrightarrow> candidate b sys ps k j"
  by (simp add: candidate_def)

lemma job_scan_same:
  assumes "candidate b sys ps k j" and "Some (Suite j) = su"
    and "\<forall>k' j'. k' < k \<longrightarrow> candidate b sys ps k' j' \<longrightarrow> Some (Suite j') \<noteq> su"
  shows "job_scan sw b sys su i ps best bw = int (i + k)"
  using assms
proof (induction ps arbitrary: i k best bw)
  case Nil
  then show ?case by (simp add: candidate_Nil)
next
  case (Cons x ps)
  show ?case
  proof (cases k)
    case 0
    with Cons.prems(1,2) show ?thesis by (simp add: candidate_0)
  next
    case (Suc k0)
    have c: "candidate b sys ps k0 j" using Cons.prems(1) Suc by (simp add: candidate_Suc)
    have n: "\<forall>k' j'. k' < k0 \<longrightarrow> candidate b sys ps k' j' \<longrightarrow> Some (Suite j') \<noteq> su"
    proof (intro allI impI)
      fix k' j' assume "k' < k0" "candidate b sys ps k' j'"
      then have "Suc k' < k" "candidate b sys (x # ps) (Suc k') j'"
        using Suc by (simp_all add: candidate_Suc)
      then show "Some (Suite j') \<noteq> su" using Cons.prems(3) by blast
    qed
    have IH: "\<And>best bw. job_scan sw b sys su (Suc i) ps best bw = int (Suc i + k0)"
      using Cons.IH[OF c Cons.prems(2) n] by blast
    have h: "\<And>j0. x = Some j0 \<Longrightarrow> Backend j0 = b \<Longrightarrow> System j0 = sys \<Longrightarrow> Some (Suite j0) \<noteq> su"
    proof -
      fix j0 assume "x = Some j0" "Backend j0 = b" "System j0 = sys"
      then have "candidate b sys (x # ps) 0 j0" by (simp add: candidate_0)
      moreover have "0 < k" using Suc by simp
      ultimately show "Some (Suite j0) \<noteq> su" using Cons.prems(3) by blast
    qed
    show ?thesis
    proof (cases x)
      case None
      then show ?thesis using IH Suc by simp
    next
      case (Some j0)
      then show ?thesis using IH Suc h[OF Some] by simp
    qed
  qed
qed

lemma least_loaded_Cons_Suc:
  assumes "least_loaded sw b sys ps k j"
    and "\<And>j0. x = Some j0 \<Longrightarrow> Backend j0 = b \<Longrightarrow> System j0 = sys \<Longrightarrow>
           sw (suiteWorkersKey j) < sw (suiteWorkersKey j0)"
  shows "least_loaded sw b sys (x # ps) (Suc k) j"
  unfolding least_loaded_def
proof (intro allI impI)
  fix k' j' assume c: "candidate b sys (x # ps) k' j'"
  show "sw (suiteWorkersKey j) \<le> sw (suiteWorkersKey j') \<and>
        (k' < Suc k \<longrightarrow> sw (suiteWorkersKey j) < sw (suiteWorkersKey j'))"
  proof (cases k')
    case 0
    with c have "x = Some j'" "Backend j' = b" "System j' = sys" by (simp_all add: candidate_0)
    from assms(2)[OF this] show ?thesis by simp
  next
    case (Suc k0)
    with c have "candidate b sys ps k0 j'" by (simp add: candidate_Suc)
    with assms(1) Suc show ?thesis by (auto simp: least_loaded_def)
  qed
qed

lemma least_loaded_Cons_0:
  assumes "\<And>k' j'. candidate b sys ps k' j' \<Longrightarrow> sw (suiteWorkersKey j) \<le> sw (suiteWorkersKey j')"
  shows "least_loaded sw b sys (Some j # ps) 0 j"
  unfolding least_loaded_def
proof (intro allI impI)
  fix k' j' assume c: "candidate b sys (Some j # ps) k' j'"
  show "sw (suiteWorkersKey j) \<le> sw (suiteWorkersKey j') \<and>
        (k' < 0 \<longrightarrow> sw (suiteWorkersKey j) < sw (suiteWorkersKey j'))"
  proof (cases k')
    case 0
    with c show ?thesis by (simp add: candidate_0)
  next
    case (Suc k0)
    with c have "candidate b sys ps k0 j'" by (simp add: candidate_Suc)
    with assms show ?thesis by simp
  qed
qed

lemma job_scan_nosame:
  assumes "\<forall>k j. candidate b sys ps k j \<longrightarrow> Some (Suite j) \<noteq> su"
  shows "(job_scan sw b sys su i ps best bw = best \<and>
            (\<forall>k j. candidate b sys ps k j \<longrightarrow> bw \<le> sw (suiteWorkersKey j)))
       \<or> (\<exists>k j. candidate b sys ps k j \<and> job_scan sw b sys su i ps best bw = int (i + k) \<and>
              sw (suiteWorkersKey j) < bw \<and> least_loaded sw b sys ps k j)"
  using assms
proof (induction ps arbitrary: i best bw)
  case Nil
  then show ?case by (simp add: candidate_Nil)
next
  case (Cons x ps)
  have ns: "\<forall>k j. candidate b sys ps k j \<longrightarrow> Some (Suite j) \<noteq> su"
    using Cons.prems candidate_Suc by blast
  note IH = Cons.IH[where i = "Suc i", OF ns]
  let ?cnt = "\<lambda>j. sw (suiteWorkersKey j)"
  have skip: ?case if eq: "job_scan sw b sys su i (x # ps) best bw = job_scan sw b sys su (Suc i) ps best bw"
     and nc: "\<And>j0. x = Some j0 \<Longrightarrow> Backend j0 = b \<Longrightarrow> System j0 = sys \<Longrightarrow> bw \<le> ?cnt j0"
  proof -
    from IH[where best = best and bw = bw] show ?thesis
    proof (elim disjE exE conjE)
      assume a: "job_scan sw b sys su (Suc i) ps best bw = best"
        and b: "\<forall>k j. candidate b sys ps k j \<longrightarrow> bw \<le> ?cnt j"
      have "\<forall>k j. candidate b sys (x # ps) k j \<longrightarrow> bw \<le> ?cnt j"
      proof (intro allI impI)
        fix k j assume c: "candidate b sys (x # ps) k j"
        show "bw \<le> ?cnt j"
        proof (cases k)
          case 0 with c nc show ?thesis by (simp add: candidate_0)
        next
          case (Suc k0) with c b show ?thesis by (simp add: candidate_Suc)
        qed
      qed
      with a eq show ?thesis by simp
    next
      fix k j
      assume c: "candidate b sys ps k j"
        and r: "job_scan sw b sys su (Suc i) ps best bw = int (Suc i + k)"
        and lt: "?cnt j < bw" and ll: "least_loaded sw b sys ps k j"
      have "least_loaded sw b sys (x # ps) (Suc k) j"
        using ll nc lt by (intro least_loaded_Cons_Suc) force+
      moreover have "candidate b sys (x # ps) (Suc k) j" using c by (simp add: candidate_Suc)
      moreover have "job_scan sw b sys su i (x # ps) best bw = int (i + Suc k)" using r eq by simp
      ultimately show ?thesis using lt by blast
    qed
  qed
  show ?case
  proof (cases x)
    case None
    show ?thesis by (rule skip) (simp_all add: None)
  next
    case (Some j0)
    show ?thesis
    proof (cases "Backend j0 = b \<and> System j0 = sys")
      case False
      show ?thesis by (rule skip) (use False Some in auto)
    next
      case True
      then have c0: "candidate b sys (x # ps) 0 j0" using Some by (simp add: candidate_0)
      then have nsu: "Some (Suite j0) \<noteq> su" using Cons.prems by blast
      show ?thesis
      proof (cases "?cnt j0 < bw")
        case False
        show ?thesis by (rule skip) (use False Some True nsu in auto)
      next
        case lt: True
        have eq: "job_scan sw b sys su i (x # ps) best bw = job_scan sw b sys su (Suc i) ps (int i) (?cnt j0)"
          using Some True nsu lt by simp
        from IH[where best = "int i" and bw = "?cnt j0"] show ?thesis
        proof (elim disjE exE conjE)
          assume a: "job_scan sw b sys su (Suc i) ps (int i) (?cnt j0) = int i"
            and b: "\<forall>k j. candidate b sys ps k j \<longrightarrow> ?cnt j0 \<le> ?cnt j"
          have "least_loaded sw b sys (x # ps) 0 j0"
            unfolding Some using b by (intro least_loaded_Cons_0) blast
          with a eq c0 lt show ?thesis by (intro disjI2 exI[of _ 0] exI[of _ j0]) simp
        next
          fix k j
          assume c: "candidate b sys ps k j"
            and r: "job_scan sw b sys su (Suc i) ps (int i) (?cnt j0) = int (Suc i + k)"
            and lt': "?cnt j < ?cnt j0" and ll: "least_loaded sw b sys ps k j"
          have "least_loaded sw b sys (x # ps) (Suc k) j"
            using ll lt' Some by (intro least_loaded_Cons_Suc) auto
          moreover have "candidate b sys (x # ps) (Suc k) j" using c by (simp add: candidate_Suc)
          moreover have "job_scan sw b sys su i (x # ps) best bw = int (i + Suc k)" using r eq by simp
          moreover have "?cnt j < bw" using lt lt' by simp
          ultimately show ?thesis by blast
        qed
      qed
    qed
  qed
qed

lemma job_scan_bounds:
  "job_scan sw b sys su i ps best bw = best \<or>
   (int i \<le> job_scan sw b sys su i ps best bw \<and>
    job_scan sw b sys su i ps best bw < int (i + length ps))"
proof (induction ps arbitrary: i best bw)
  case Nil
  then show ?case by simp
next
  case (Cons x ps)
  show ?case
  proof (cases x)
    case None
    with Cons[of "Suc i" best bw] show ?thesis by auto
  next
    case (Some j0)
    with Cons[of "Suc i" best bw] Cons[of "Suc i" "int i" "sw (suiteWorkersKey j0)"]
    show ?thesis by auto
  qed
qed

text \<open>
  Claim C7, amended. The picker skips cleared slots and jobs of another backend or system.
  If a candidate has the caller's suite, the first such candidate is returned. Otherwise the
  candidate with the smallest \<^verbatim>\<open>suiteWorkers\<close> count is returned, the earliest on a tie,
  provided that count is below the initial best count 1000000; when every candidate has
  a count of 1000000 or more, nothing is returned and the list is left as it is. The
  returned slot is cleared in place.
\<close>

theorem job_pick_amended:
  assumes "job_pick sw ps b sys su = (res, ps')"
  shows "case res of
      None \<Rightarrow> ps' = ps \<and>
        (\<forall>k j. candidate b sys ps k j \<longrightarrow>
           Some (Suite j) \<noteq> su \<and> 1000000 \<le> sw (suiteWorkersKey j))
    | Some j \<Rightarrow> \<exists>k. candidate b sys ps k j \<and> ps' = ps[k := None] \<and>
        (if Some (Suite j) = su
         then \<forall>k' j'. k' < k \<longrightarrow> candidate b sys ps k' j' \<longrightarrow> Some (Suite j') \<noteq> su
         else (\<forall>k' j'. candidate b sys ps k' j' \<longrightarrow> Some (Suite j') \<noteq> su) \<and>
              sw (suiteWorkersKey j) < 1000000 \<and> least_loaded sw b sys ps k j)"
proof (cases "\<exists>k j. candidate b sys ps k j \<and> Some (Suite j) = su")
  case True
  then have "\<exists>k. (\<exists>j. candidate b sys ps k j \<and> Some (Suite j) = su) \<and>
      (\<forall>m<k. \<not> (\<exists>j. candidate b sys ps m j \<and> Some (Suite j) = su))"
    using exists_least_iff[of "\<lambda>k. \<exists>j. candidate b sys ps k j \<and> Some (Suite j) = su"]
    by blast
  then obtain k j where c: "candidate b sys ps k j" and s: "Some (Suite j) = su"
    and m: "\<forall>k' j'. k' < k \<longrightarrow> candidate b sys ps k' j' \<longrightarrow> Some (Suite j') \<noteq> su"
    by blast
  have "job_scan sw b sys su 0 ps (- 1) 1000000 = int k"
    using job_scan_same[OF c s m, of sw 0] by simp
  then have "job_pick sw ps b sys su = (ps ! k, ps[k := None])"
    by (simp add: job_pick_def)
  with assms c have "res = Some j" "ps' = ps[k := None]"
    by (simp_all add: candidate_def)
  with c s m show ?thesis by auto
next
  case False
  then have ns: "\<forall>k j. candidate b sys ps k j \<longrightarrow> Some (Suite j) \<noteq> su" by blast
  from job_scan_nosame[OF ns, of sw 0 "- 1" 1000000] show ?thesis
  proof (elim disjE exE conjE)
    assume "job_scan sw b sys su 0 ps (- 1) 1000000 = - 1"
      and a: "\<forall>k j. candidate b sys ps k j \<longrightarrow> 1000000 \<le> sw (suiteWorkersKey j)"
    then have "job_pick sw ps b sys su = (None, ps)"
      by (simp add: job_pick_def)
    with assms a ns show ?thesis by auto
  next
    fix k j
    assume c: "candidate b sys ps k j"
      and r: "job_scan sw b sys su 0 ps (- 1) 1000000 = int (0 + k)"
      and lt: "sw (suiteWorkersKey j) < 1000000"
      and ll: "least_loaded sw b sys ps k j"
    from r have "job_pick sw ps b sys su = (ps ! k, ps[k := None])"
      by (simp add: job_pick_def)
    with assms c have "res = Some j" "ps' = ps[k := None]"
      by (simp_all add: candidate_def)
    moreover have "Some (Suite j) \<noteq> su" using ns c by blast
    ultimately show ?thesis using c ns lt ll by auto
  qed
qed

theorem job_pick_amended_witness:
  "job_pick ((\<lambda>_. 0)(suiteWorkersKey ex_job1 := 1)) [Some ex_job1, None, Some ex_job2]
      ex_backend ''ubuntu'' None = (Some ex_job2, [Some ex_job1, None, None]) \<and>
   (\<exists>k. candidate ex_backend ''ubuntu'' [Some ex_job1, None, Some ex_job2] k ex_job2 \<and>
      least_loaded ((\<lambda>_. 0)(suiteWorkersKey ex_job1 := 1)) ex_backend ''ubuntu''
        [Some ex_job1, None, Some ex_job2] k ex_job2)"
proof -
  have e: "job_pick ((\<lambda>_. 0)(suiteWorkersKey ex_job1 := 1)) [Some ex_job1, None, Some ex_job2]
      ex_backend ''ubuntu'' None = (Some ex_job2, [Some ex_job1, None, None])"
    by (simp add: job_pick_def suiteWorkersKey_def ex_job1_def ex_job2_def ex_suite1_def
        ex_suite2_def)
  from job_pick_amended[OF e] show ?thesis using e by auto
qed

text \<open>
  The claim as written fails where it promises a job whenever a matching one is pending:
  with a count of 1000000 for the only candidate, the picker returns nothing.
\<close>

theorem job_pick_counterexample:
  "candidate ex_backend ''ubuntu'' [Some ex_job1] 0 ex_job1 \<and>
   job_pick (\<lambda>_. 1000000) [Some ex_job1] ex_backend ''ubuntu'' None = (None, [Some ex_job1])"
  by (simp add: candidate_def job_pick_def ex_job1_def)

section \<open>Properties of the server acquirer\<close>

lemma allocate_loop_fatal_first:
  "allocate_loop None ((AllocErr msg True, ev) # rest) = Some AbortNil"
  by simp

lemma allocate_loop_fatal_new_message:
  "m \<noteq> msg \<Longrightarrow> allocate_loop (Some (m, f)) ((AllocErr msg True, ev) # rest) = Some AbortNil"
  by simp

text \<open>
  Claim C2, evaluated on the code. The claim says that the acquirer claims the first
  address not yet claimed and marks only that one, so that two workers with two
  configured addresses end with two servers. The scan has no \<^verbatim>\<open>break\<close>: with the
  addresses 10.0.0.1 and 10.0.0.2 and nothing claimed, it marks both and keeps the
  last. The first worker connects to 10.0.0.2, the second finds none left and gets nil,
  and \<^verbatim>\<open>servers\<close> has length 1.
\<close>

theorem reuse_scan_claims_every_address:
  "(case reuse_scan [''10.0.0.1'', ''10.0.0.2''] (\<lambda>_. False) None of
      (rd, found) \<Rightarrow> rd ''10.0.0.1'' \<and> rd ''10.0.0.2'' \<and> found = Some ''10.0.0.2'') \<and>
   (case client ex_runner_reuse ex_backend [ex_pass ex_server2] of
      (r1, c1) \<Rightarrow>
        (case client r1 ex_backend [ex_pass ex_server1] of
           (r2, c2) \<Rightarrow> c1 = Some (Some ex_server2) \<and> c2 = Some None \<and>
              length (servers r2) = 1 \<and> reused r2 ''10.0.0.1'' \<and> reused r2 ''10.0.0.2''))"
  by (simp add: ex_runner_reuse_def ex_runner_def ex_pass_def client_pass_def
      claim_or_allocate_def connect_and_send_def lookup_list_def ex_backend_def ex_options_def)

text \<open>
  Claim C5, evaluated on the code. The claim says that a fatal error of
  \<^verbatim>\<open>provider.Allocate\<close> aborts the acquirer at once, whatever error came before. The test
  for a fatal error stands inside the test that the message differs from the last one:
  after a plain error with the message busy, a fatal error with the same message is
  retried like any other, and the next attempt may even succeed.
\<close>

theorem allocate_loop_fatal_same_message:
  "allocate_loop None
     [(AllocErr ''busy'' False, RetryTick), (AllocErr ''busy'' True, RetryTick),
      (AllocOK ex_server1, RetryTick)] = Some (Allocated ex_server1)"
  by code_simp

section \<open>Properties of the reuse-args formatter\<close>

text \<open>
  Claim C6, evaluated on the code. The claim says that each backend appears once in the
  reuse value. \<^verbatim>\<open>backends\<close> gets the backend's name once per server, so with two servers
  of the backend lxd the group is written twice, with a space between and no quotes.
\<close>

theorem reuseArgs_repeats_backend:
  "reuseArgs (ex_runner\<lparr>servers := [ex_server2, ex_server1]\<rparr>) =
     ''-pass=pw -reuse=lxd:10.0.0.1,10.0.0.2 lxd:10.0.0.1,10.0.0.2''"
  by code_simp

section \<open>Properties of the worker counts\<close>

lemma jobs_of_Nil: "jobs_of b sys [] = 0"
  by (simp add: jobs_of_def)

lemma jobs_of_Cons:
  "jobs_of b sys (j # js) = (if Backend j = b \<and> System j = sys then 1 else 0) + jobs_of b sys js"
  by (simp add: jobs_of_def)

lemma jobs_of_nonneg: "0 \<le> jobs_of b sys js"
  by (simp add: jobs_of_def)

lemma count_jobs_eq:
  "count_jobs b sys js (w, a) =
     (w((Name_backend b, sys) := w (Name_backend b, sys) + grant b sys js (w (Name_backend b, sys))),
      a + grant b sys js (w (Name_backend b, sys)))"
proof (induction js arbitrary: w a)
  case Nil
  then show ?case by (simp add: grant_def jobs_of_Nil)
next
  case (Cons j js)
  have nn: "0 \<le> jobs_of b sys js" by (rule jobs_of_nonneg)
  show ?case
  proof (cases "Backend j = b \<and> System j = sys")
    case False
    then have "grant b sys (j # js) c = grant b sys js c" for c
      by (auto simp: grant_def jobs_of_Cons)
    then show ?thesis using False Cons by auto
  next
    case True
    show ?thesis
    proof (cases "lookup_int (SystemWorkers b) sys > w (Name_backend b, sys)")
      case False
      then have "grant b sys (j # js) (w (Name_backend b, sys)) = 0"
        using nn by (simp add: grant_def jobs_of_Cons True)
      then show ?thesis using True False by simp
    next
      case gt: True
      have g: "grant b sys (j # js) (w (Name_backend b, sys)) =
               1 + grant b sys js (w (Name_backend b, sys) + 1)"
        using nn gt by (simp add: grant_def jobs_of_Cons True)
      show ?thesis using True gt by (simp add: Cons g Let_def fun_eq_iff)
    qed
  qed
qed

lemma count_systems_frame:
  "n \<noteq> Name_backend b \<Longrightarrow>
   fst (fold (\<lambda>sys. count_jobs b sys js) syss (w, a)) (n, s) = w (n, s)"
  by (induction syss arbitrary: w a) (simp_all add: count_jobs_eq)

lemma count_systems_other:
  "s \<notin> set syss \<Longrightarrow>
   fst (fold (\<lambda>sys. count_jobs b sys js) syss (w, a)) (n, s) = w (n, s)"
  by (induction syss arbitrary: w a) (simp_all add: count_jobs_eq)

lemma count_systems_eq:
  "distinct syss \<Longrightarrow>
   (\<forall>sys \<in> set syss. fst (fold (\<lambda>sys. count_jobs b sys js) syss (w, a)) (Name_backend b, sys) =
       w (Name_backend b, sys) + grant b sys js (w (Name_backend b, sys))) \<and>
   snd (fold (\<lambda>sys. count_jobs b sys js) syss (w, a)) =
       a + (\<Sum>sys\<leftarrow>syss. grant b sys js (w (Name_backend b, sys)))"
proof (induction syss arbitrary: w a)
  case Nil
  then show ?case by simp
next
  case (Cons s syss)
  define k where "k = (Name_backend b, s)"
  define w1 where "w1 = w(k := w k + grant b s js (w k))"
  define a1 where "a1 = a + grant b s js (w k)"
  have d: "distinct syss" and ns: "s \<notin> set syss" using Cons.prems by simp_all
  have step: "fold (\<lambda>sys. count_jobs b sys js) (s # syss) (w, a) =
              fold (\<lambda>sys. count_jobs b sys js) syss (w1, a1)"
    by (simp add: count_jobs_eq w1_def a1_def k_def)
  note IH = Cons.IH[OF d, of w1 a1]
  have same: "w1 (Name_backend b, sys) = w (Name_backend b, sys)" if "sys \<in> set syss" for sys
    using ns that by (auto simp: w1_def k_def)
  have "map (\<lambda>sys. grant b sys js (w1 (Name_backend b, sys))) syss =
        map (\<lambda>sys. grant b sys js (w (Name_backend b, sys))) syss"
    by (rule map_cong) (simp_all add: same)
  then have sum: "(\<Sum>sys\<leftarrow>syss. grant b sys js (w1 (Name_backend b, sys))) =
             (\<Sum>sys\<leftarrow>syss. grant b sys js (w (Name_backend b, sys)))"
    by (rule arg_cong)
  have head: "fst (fold (\<lambda>sys. count_jobs b sys js) syss (w1, a1)) k = w1 k"
    unfolding k_def by (rule count_systems_other[OF ns])
  show ?case
  proof (intro conjI ballI)
    fix sys assume m: "sys \<in> set (s # syss)"
    show "fst (fold (\<lambda>sys. count_jobs b sys js) (s # syss) (w, a)) (Name_backend b, sys) =
          w (Name_backend b, sys) + grant b sys js (w (Name_backend b, sys))"
    proof (cases "sys = s")
      case True
      have "w1 k = w k + grant b s js (w k)" by (simp add: w1_def)
      then show ?thesis unfolding step using head True by (simp add: k_def)
    next
      case False
      with m have i: "sys \<in> set syss" by simp
      from IH i have "fst (fold (\<lambda>sys. count_jobs b sys js) syss (w1, a1)) (Name_backend b, sys) =
        w1 (Name_backend b, sys) + grant b sys js (w1 (Name_backend b, sys))" by blast
      then show ?thesis unfolding step same[OF i] .
    qed
  next
    have "snd (fold (\<lambda>sys. count_jobs b sys js) syss (w1, a1)) =
          a1 + (\<Sum>sys\<leftarrow>syss. grant b sys js (w1 (Name_backend b, sys)))"
      using IH by blast
    then show "snd (fold (\<lambda>sys. count_jobs b sys js) (s # syss) (w, a)) =
          a + (\<Sum>sys\<leftarrow>s # syss. grant b sys js (w (Name_backend b, sys)))"
      unfolding step sum by (simp add: a1_def k_def)
  qed
qed


lemma count_backend_frame:
  "n \<noteq> Name_backend b \<Longrightarrow> fst (count_backend js b st) (n, s) = fst st (n, s)"
  using count_systems_frame[of n b js "Systems b" "fst st" "snd st" s]
  by (simp add: count_backend_def)

lemma count_backends_frame:
  "n \<notin> Name_backend ` set bs \<Longrightarrow>
   fst (fold (count_backend js) bs st) (n, s) = fst st (n, s)"
  by (induction bs arbitrary: st) (simp_all add: count_backend_frame)

lemma count_backend_eq:
  assumes "distinct (Systems b)"
  shows "(\<forall>sys \<in> set (Systems b). fst (count_backend js b st) (Name_backend b, sys) =
            fst st (Name_backend b, sys) + grant b sys js (fst st (Name_backend b, sys))) \<and>
         snd (count_backend js b st) =
            snd st + (\<Sum>sys\<leftarrow>Systems b. grant b sys js (fst st (Name_backend b, sys)))"
  using count_systems_eq[OF assms, of b js "fst st" "snd st"]
  by (simp add: count_backend_def)

lemma backend_total_cong:
  assumes "\<And>sys. sys \<in> set (Systems b) \<Longrightarrow> w (Name_backend b, sys) = w' (Name_backend b, sys)"
  shows "backend_total js w b = backend_total js w' b"
proof -
  have "map (\<lambda>sys. grant b sys js (w (Name_backend b, sys))) (Systems b) =
        map (\<lambda>sys. grant b sys js (w' (Name_backend b, sys))) (Systems b)"
    by (rule map_cong) (simp_all add: assms)
  then show ?thesis unfolding backend_total_def by (rule arg_cong)
qed

lemma count_backends_eq:
  assumes "distinct (map Name_backend bs)" and "\<forall>b \<in> set bs. distinct (Systems b)"
  shows "(\<forall>b \<in> set bs. \<forall>sys \<in> set (Systems b).
            fst (fold (count_backend js) bs st) (Name_backend b, sys) =
            fst st (Name_backend b, sys) + grant b sys js (fst st (Name_backend b, sys))) \<and>
         snd (fold (count_backend js) bs st) =
            snd st + (\<Sum>b\<leftarrow>bs. backend_total js (fst st) b)"
  using assms
proof (induction bs arbitrary: st)
  case Nil
  then show ?case by simp
next
  case (Cons b0 bs)
  define st1 where "st1 = count_backend js b0 st"
  have step: "fold (count_backend js) (b0 # bs) st = fold (count_backend js) bs st1"
    by (simp add: st1_def)
  have d: "distinct (map Name_backend bs)" and nb: "Name_backend b0 \<notin> Name_backend ` set bs"
    and ds: "\<forall>b \<in> set bs. distinct (Systems b)" and d0: "distinct (Systems b0)"
    using Cons.prems by simp_all
  note IH = Cons.IH[OF d ds, of st1]
  note B0 = count_backend_eq[OF d0, of js st, folded st1_def]
  have frame: "fst st1 (Name_backend b, sys) = fst st (Name_backend b, sys)"
    if "b \<in> set bs" for b sys
  proof -
    from that nb have "Name_backend b \<noteq> Name_backend b0" by (metis imageI)
    then show ?thesis unfolding st1_def by (rule count_backend_frame)
  qed
  have "map (backend_total js (fst st1)) bs = map (backend_total js (fst st)) bs"
    by (rule map_cong) (auto intro: backend_total_cong simp: frame)
  then have sum: "(\<Sum>b\<leftarrow>bs. backend_total js (fst st1) b) = (\<Sum>b\<leftarrow>bs. backend_total js (fst st) b)"
    by (rule arg_cong)
  show ?case
  proof (intro conjI ballI)
    fix b sys assume m: "b \<in> set (b0 # bs)" and ms: "sys \<in> set (Systems b)"
    show "fst (fold (count_backend js) (b0 # bs) st) (Name_backend b, sys) =
          fst st (Name_backend b, sys) + grant b sys js (fst st (Name_backend b, sys))"
    proof (cases "b \<in> set bs")
      case True
      with IH ms have "fst (fold (count_backend js) bs st1) (Name_backend b, sys) =
        fst st1 (Name_backend b, sys) + grant b sys js (fst st1 (Name_backend b, sys))" by blast
      then show ?thesis unfolding step frame[OF True] .
    next
      case False
      with m have e: "b = b0" by simp
      have "fst (fold (count_backend js) bs st1) (Name_backend b0, sys) = fst st1 (Name_backend b0, sys)"
        by (rule count_backends_frame[OF nb])
      moreover have "fst st1 (Name_backend b0, sys) =
        fst st (Name_backend b0, sys) + grant b0 sys js (fst st (Name_backend b0, sys))"
        using B0 ms e by blast
      ultimately show ?thesis unfolding step e by simp
    qed
  next
    have "snd (fold (count_backend js) bs st1) = snd st1 + (\<Sum>b\<leftarrow>bs. backend_total js (fst st1) b)"
      using IH by blast
    moreover have "snd st1 = snd st + backend_total js (fst st) b0"
      using B0 by (simp add: backend_total_def)
    ultimately show "snd (fold (count_backend js) (b0 # bs) st) =
          snd st + (\<Sum>b\<leftarrow>b0 # bs. backend_total js (fst st) b)"
      unfolding step sum by simp
  qed
qed

text \<open>
  Claim C8, amended. For a project whose backends have different names and list each
  system once, the count of workers for a backend and system is the smaller of the cap
  and the number of pending jobs of that backend and system, or 0 when the cap is
  negative, and \<^verbatim>\<open>alive\<close> is the sum of these counts over all pairs.
\<close>

theorem worker_counts:
  assumes "distinct_systems bs"
  shows "(\<forall>b \<in> set bs. \<forall>sys \<in> set (Systems b).
            fst (count_workers bs js) (Name_backend b, sys) =
            max 0 (min (lookup_int (SystemWorkers b) sys) (jobs_of b sys js))) \<and>
         snd (count_workers bs js) =
            (\<Sum>b\<leftarrow>bs. \<Sum>sys\<leftarrow>Systems b.
               max 0 (min (lookup_int (SystemWorkers b) sys) (jobs_of b sys js)))"
proof -
  have d: "distinct (map Name_backend bs)" and ds: "\<forall>b \<in> set bs. distinct (Systems b)"
    using assms by (auto simp: distinct_systems_def)
  note E = count_backends_eq[OF d ds, of js "(\<lambda>_. 0, 0)", folded count_workers_def]
  have g: "grant b sys js 0 = max 0 (min (lookup_int (SystemWorkers b) sys) (jobs_of b sys js))"
    for b sys
    by (simp add: grant_def)
  show ?thesis
  proof (intro conjI ballI)
    fix b sys assume m: "b \<in> set bs" "sys \<in> set (Systems b)"
    with E have "fst (count_workers bs js) (Name_backend b, sys) = 0 + grant b sys js 0"
      by auto
    then show "fst (count_workers bs js) (Name_backend b, sys) =
            max 0 (min (lookup_int (SystemWorkers b) sys) (jobs_of b sys js))"
      by (simp add: g)
  next
    from E have "snd (count_workers bs js) = 0 + (\<Sum>b\<leftarrow>bs. backend_total js (\<lambda>_. 0) b)"
      by auto
    then show "snd (count_workers bs js) =
            (\<Sum>b\<leftarrow>bs. \<Sum>sys\<leftarrow>Systems b.
               max 0 (min (lookup_int (SystemWorkers b) sys) (jobs_of b sys js)))"
      by (simp add: backend_total_def g)
  qed
qed

theorem worker_counts_witness:
  "distinct_systems [ex_backend] \<and>
   fst (count_workers [ex_backend] [ex_job1, ex_job2, ex_job1]) (''lxd'', ''ubuntu'') = 2 \<and>
   snd (count_workers [ex_backend] [ex_job1, ex_job2, ex_job1]) = 2"
proof -
  have w: "distinct_systems [ex_backend]"
    by (simp add: distinct_systems_def ex_backend_def)
  have j: "jobs_of ex_backend ''ubuntu'' [ex_job1, ex_job2, ex_job1] = 3"
    by (simp add: jobs_of_def ex_job1_def ex_job2_def)
  from worker_counts[OF w, of "[ex_job1, ex_job2, ex_job1]"] show ?thesis
    using w j by (simp add: ex_backend_def lookup_int_def)
qed

text \<open>
  The claim as written holds of every project configuration. With a cap of -1 and one
  job the count is 0 and not the smaller of the two, -1. With a system listed twice, a
  cap of 3 and two jobs, the count and \<^verbatim>\<open>alive\<close> are 3 and not 2, and 6 workers are
  started.
\<close>

theorem worker_counts_counterexample:
  "(let b = ex_backend\<lparr>SystemWorkers := [(''ubuntu'', - 1)]\<rparr>;
        js = [ex_job1\<lparr>Backend := b\<rparr>] in
      fst (count_workers [b] js) (''lxd'', ''ubuntu'') = 0 \<and>
      snd (count_workers [b] js) = 0 \<and>
      min (lookup_int (SystemWorkers b) ''ubuntu'') (jobs_of b ''ubuntu'' js) = - 1) \<and>
   (let b = ex_backend\<lparr>Systems := [''ubuntu'', ''ubuntu''], SystemWorkers := [(''ubuntu'', 3)]\<rparr>;
        js = [ex_job1\<lparr>Backend := b\<rparr>, ex_job2\<lparr>Backend := b\<rparr>] in
      fst (count_workers [b] js) (''lxd'', ''ubuntu'') = 3 \<and>
      snd (count_workers [b] js) = 3 \<and>
      min (lookup_int (SystemWorkers b) ''ubuntu'') (jobs_of b ''ubuntu'' js) = 2 \<and>
      length (spawn [b] (fst (count_workers [b] js))) = 6)"
  by (simp add: Let_def count_workers_def count_backend_def spawn_def lookup_int_def jobs_of_def
      ex_backend_def ex_job1_def ex_job2_def)

section \<open>Invariants of a worker\<close>

lemma pending_since_Nil: "\<not> pending_since opens closes []"
  by (simp add: pending_since_def)

lemma pending_since_snoc:
  "pending_since opens closes (h @ [e]) \<longleftrightarrow> opens e \<or> (pending_since opens closes h \<and> \<not> closes e)"
proof
  assume "pending_since opens closes (h @ [e])"
  then obtain i where i: "i < Suc (length h)" "opens ((h @ [e]) ! i)"
    and later: "\<forall>k. i < k \<and> k < Suc (length h) \<longrightarrow> \<not> closes ((h @ [e]) ! k)"
    by (auto simp: pending_since_def)
  show "opens e \<or> (pending_since opens closes h \<and> \<not> closes e)"
  proof (cases "i = length h")
    case True
    with i show ?thesis by simp
  next
    case False
    with i have il: "i < length h" by simp
    have "\<forall>k. i < k \<and> k < length h \<longrightarrow> \<not> closes (h ! k)"
    proof (intro allI impI)
      fix k assume k: "i < k \<and> k < length h"
      with later have "\<not> closes ((h @ [e]) ! k)" by simp
      then show "\<not> closes (h ! k)" using k by (simp add: nth_append)
    qed
    moreover have "opens (h ! i)" using i(2) il by (simp add: nth_append)
    ultimately have "pending_since opens closes h" using il by (auto simp: pending_since_def)
    moreover have "\<not> closes e" using later[rule_format, of "length h"] il by simp
    ultimately show ?thesis by simp
  qed
next
  assume a: "opens e \<or> (pending_since opens closes h \<and> \<not> closes e)"
  show "pending_since opens closes (h @ [e])"
  proof (cases "opens e")
    case True
    then show ?thesis unfolding pending_since_def
      by (intro exI[of _ "length h"]) auto
  next
    case False
    with a have p: "pending_since opens closes h" and n: "\<not> closes e" by auto
    from p obtain i where il: "i < length h" and o: "opens (h ! i)"
      and later: "\<forall>k. i < k \<and> k < length h \<longrightarrow> \<not> closes (h ! k)"
      by (auto simp: pending_since_def)
    have "\<forall>k. i < k \<and> k < length (h @ [e]) \<longrightarrow> \<not> closes ((h @ [e]) ! k)"
    proof (intro allI impI)
      fix k assume k: "i < k \<and> k < length (h @ [e])"
      show "\<not> closes ((h @ [e]) ! k)"
      proof (cases "k = length h")
        case True
        then show ?thesis using n by simp
      next
        case False
        with k have "k < length h" by simp
        then show ?thesis using later k by (simp add: nth_append)
      qed
    qed
    moreover have "opens ((h @ [e]) ! i)" using o il by (simp add: nth_append)
    moreover have "i < length (h @ [e])" using il by simp
    ultimately show ?thesis unfolding pending_since_def by blast
  qed
qed

lemma pending_since_append:
  "pending_since opens closes (h @ es) = track opens closes (pending_since opens closes h) es"
proof (induction es arbitrary: h)
  case Nil
  then show ?case by simp
next
  case (Cons e es)
  have "pending_since opens closes (h @ e # es) = pending_since opens closes ((h @ [e]) @ es)"
    by simp
  also have "\<dots> = track opens closes (pending_since opens closes (h @ [e])) es"
    by (rule Cons.IH)
  finally show ?case by (simp add: pending_since_snoc)
qed

lemma owes_Nil [simp]: "\<not> owes [] c"
  by (simp add: owes_def pending_since_Nil)

lemma owes_append [simp]:
  "owes (h @ es) c =
     track (\<lambda>e. ev_verb e = preparing \<and> ev_ctx e = c) (\<lambda>e. ev_verb e = restoring \<and> ev_ctx e = c)
       (owes h c) es"
  by (simp add: owes_def pending_since_append)

lemma prepared_Nil [simp]: "\<not> prepared [] c"
  by (simp add: prepared_def pending_since_Nil)

lemma prepared_append [simp]:
  "prepared (h @ es) c =
     track (\<lambda>e. ev_verb e = preparing \<and> ev_ctx e = c)
       (\<lambda>e. ev_verb e = restoring \<and> ev_ctx e = c \<and> ev_ok e) (prepared h c) es"
  by (simp add: prepared_def pending_since_append)

lemma run_last_None_D: "run_last opts w v c s = None \<Longrightarrow> last_w w = None"
  by (auto simp: run_last_def split: option.splits if_splits)

lemma run_w_D:
  "run_w opts w j v c s = (ok, w1) \<Longrightarrow>
   \<exists>calls ab. w1 = w\<lparr>abend := ab, history := history w @ [Run v c ok calls]\<rparr> \<and>
      (if ok then ab = abend w else ab = Abend opts)"
  by (auto simp: run_w_def run_def Let_def split: if_splits)

lemma run_last_D:
  "run_last opts w v c s = Some (ok, w1) \<Longrightarrow>
   \<exists>calls ab. w1 = w\<lparr>abend := ab, history := history w @ [Run v c ok calls]\<rparr> \<and>
      (if ok then ab = abend w else ab = Abend opts)"
  by (auto simp: run_last_def split: option.splits if_splits dest!: run_w_D)

lemma flow_sat_and_then:
  assumes "flow_sat S Q f" and "\<And>r w. Q r w \<Longrightarrow> flow_sat S G (g r w)"
  shows "flow_sat S G (and_then f g)"
  using assms by (cases f) (auto simp: flow_sat_def)

lemma flow_sat_end:
  assumes "flow_sat P P f"
  shows "case end_flow f of (r, w) \<Rightarrow> P r w"
  using assms by (cases f) (auto simp: flow_sat_def)

lemma flow_sat_weaken:
  assumes "flow_sat S G f" and "\<And>r w. S r w \<Longrightarrow> S' r w" and "\<And>r w. G r w \<Longrightarrow> G' r w"
  shows "flow_sat S' G' f"
  using assms by (cases f) (auto simp: flow_sat_def)

lemma loop_body_rule:
  assumes "Ga r w"
    and "\<And>r w. Ga r w \<Longrightarrow> flow_sat S Gb (bad_suite_check j r w)"
    and "\<And>r w. Gb r w \<Longrightarrow> flow_sat S Gc (suite_switch j r w)"
    and "\<And>r w. Gc r w \<Longrightarrow> flow_sat S Gc (project_prepare j r w)"
    and "\<And>r w. Gc r w \<Longrightarrow> flow_sat S Gc (backend_prepare j r w)"
    and "\<And>r w. Gc r w \<Longrightarrow> flow_sat S Gd (enter_suite j r w)"
    and "\<And>r w. Gd r w \<Longrightarrow> flow_sat S Ge (task_run j r w)"
    and "\<And>r w. Ge r w \<Longrightarrow> flow_sat S S (task_restore j r w)"
  shows "case loop_body j r w of (r', w') \<Rightarrow> S r' w'"
proof -
  have ep: "flow_sat S Gc (enter_project j r w)" if g: "Gc r w" for r w
  proof (cases "insideProject w")
    case True
    then show ?thesis using g by (simp add: enter_project_def flow_sat_def)
  next
    case False
    have "flow_sat S Gc (and_then (project_prepare j r w) (backend_prepare j))"
      by (rule flow_sat_and_then[OF assms(4)[OF g]]) (rule assms(5))
    then show ?thesis using False by (simp add: enter_project_def)
  qed
  have 1: "flow_sat S Gb (bad_suite_check j r w)"
    by (rule assms(2)[OF assms(1)])
  have 2: "flow_sat S Gc (and_then (bad_suite_check j r w) (suite_switch j))"
    by (rule flow_sat_and_then[OF 1]) (rule assms(3))
  have 3: "flow_sat S Gc
      (and_then (and_then (bad_suite_check j r w) (suite_switch j)) (enter_project j))"
    by (rule flow_sat_and_then[OF 2]) (rule ep)
  have 4: "flow_sat S Gd
      (and_then (and_then (and_then (bad_suite_check j r w) (suite_switch j)) (enter_project j))
         (enter_suite j))"
    by (rule flow_sat_and_then[OF 3]) (rule assms(6))
  have 5: "flow_sat S Ge
      (and_then (and_then (and_then (and_then (bad_suite_check j r w) (suite_switch j))
         (enter_project j)) (enter_suite j)) (task_run j))"
    by (rule flow_sat_and_then[OF 4]) (rule assms(7))
  have 6: "flow_sat S S
      (and_then (and_then (and_then (and_then (and_then (bad_suite_check j r w) (suite_switch j))
         (enter_project j)) (enter_suite j)) (task_run j)) (task_restore j))"
    by (rule flow_sat_and_then[OF 5]) (rule assms(8))
  show ?thesis unfolding loop_body_def by (rule flow_sat_end[OF 6])
qed

lemma last_inv_loop_body:
  assumes "last_inv w"
  shows "case loop_body j r w of (r', w') \<Rightarrow> last_inv w'"
proof (rule loop_body_rule[where
      Ga = "\<lambda>r w. last_inv w" and Gb = "\<lambda>r w. last_inv w" and
      Gc = "\<lambda>r w. last_inv w \<and> last_w w \<noteq> None" and
      Gd = "\<lambda>r w. last_inv w" and Ge = "\<lambda>r w. last_inv w" and S = "\<lambda>r w. last_inv w"])
  show "last_inv w" by (rule assms)
next
  fix r w assume "last_inv w"
  then show "flow_sat (\<lambda>r. last_inv) (\<lambda>r. last_inv) (bad_suite_check j r w)"
    by (auto simp: bad_suite_check_def flow_sat_def)
next
  fix r w assume "last_inv w"
  then show "flow_sat (\<lambda>r. last_inv) (\<lambda>r w. last_inv w \<and> last_w w \<noteq> None) (suite_switch j r w)"
    by (auto simp: suite_switch_def flow_sat_def last_inv_def
        split: option.splits dest!: run_last_D run_last_None_D)
next
  fix r w assume "last_inv w \<and> last_w w \<noteq> None"
  then show "flow_sat (\<lambda>r. last_inv) (\<lambda>r w. last_inv w \<and> last_w w \<noteq> None) (project_prepare j r w)"
    by (auto simp: project_prepare_def flow_sat_def last_inv_def Let_def
        split: prod.splits dest!: run_w_D)
next
  fix r w assume "last_inv w \<and> last_w w \<noteq> None"
  then show "flow_sat (\<lambda>r. last_inv) (\<lambda>r w. last_inv w \<and> last_w w \<noteq> None) (backend_prepare j r w)"
    by (auto simp: backend_prepare_def flow_sat_def last_inv_def Let_def
        split: prod.splits dest!: run_w_D)
next
  fix r w assume "last_inv w \<and> last_w w \<noteq> None"
  then show "flow_sat (\<lambda>r. last_inv) (\<lambda>r. last_inv) (enter_suite j r w)"
    by (auto simp: enter_suite_def flow_sat_def last_inv_def Let_def
        split: prod.splits dest!: run_w_D)
next
  fix r w assume "last_inv w"
  then show "flow_sat (\<lambda>r. last_inv) (\<lambda>r. last_inv) (task_run j r w)"
    by (auto simp: task_run_def flow_sat_def last_inv_def Let_def
        split: prod.splits dest!: run_w_D)
next
  fix r w assume "last_inv w"
  then show "flow_sat (\<lambda>r. last_inv) (\<lambda>r. last_inv) (task_restore j r w)"
    by (auto simp: task_restore_def flow_sat_def last_inv_def Let_def
        split: prod.splits dest!: run_w_D)
qed


lemma owed_loop_body:
  assumes "owed_go opts r w"
  shows "case loop_body j r w of (r', w') \<Rightarrow> owed_stop opts r' w'"
proof (rule loop_body_rule[where
      Ga = "owed_go opts" and Gb = "owed_go opts" and
      Gc = "\<lambda>r w. owed_go opts r w \<and> last_w w = Some j \<and> (insideSuite w = None \<or> insideSuite w = Some (Suite j))" and
      Gd = "\<lambda>r w. owed_go opts r w \<and> last_w w = Some j" and Ge = "owed_task opts j" and S = "owed_stop opts"])
  show "owed_go opts r w" by (rule assms)
next
  fix r w assume "owed_go opts r w"
  then show "flow_sat (owed_stop opts) (owed_go opts) (bad_suite_check j r w)"
    by (auto simp: bad_suite_check_def flow_sat_def owed_go_def owed_stop_def add_def)
next
  fix r w assume "owed_go opts r w"
  then show "flow_sat (owed_stop opts)
      (\<lambda>r w. owed_go opts r w \<and> last_w w = Some j \<and> (insideSuite w = None \<or> insideSuite w = Some (Suite j)))
      (suite_switch j r w)"
    unfolding suite_switch_def flow_sat_def
    by (auto simp: owed_go_def owed_stop_def restore_inv_def add_def
        split: option.splits prod.splits if_splits dest!: run_last_D)
next
  fix r w assume "owed_go opts r w \<and> last_w w = Some j \<and> (insideSuite w = None \<or> insideSuite w = Some (Suite j))"
  then show "flow_sat (owed_stop opts)
      (\<lambda>r w. owed_go opts r w \<and> last_w w = Some j \<and> (insideSuite w = None \<or> insideSuite w = Some (Suite j)))
      (project_prepare j r w)"
    unfolding project_prepare_def flow_sat_def
    by (auto simp: owed_go_def owed_stop_def restore_inv_def add_def Let_def
        split: prod.splits if_splits dest!: run_w_D)
next
  fix r w assume "owed_go opts r w \<and> last_w w = Some j \<and> (insideSuite w = None \<or> insideSuite w = Some (Suite j))"
  then show "flow_sat (owed_stop opts)
      (\<lambda>r w. owed_go opts r w \<and> last_w w = Some j \<and> (insideSuite w = None \<or> insideSuite w = Some (Suite j)))
      (backend_prepare j r w)"
    unfolding backend_prepare_def flow_sat_def
    by (auto simp: owed_go_def owed_stop_def restore_inv_def add_def Let_def
        split: prod.splits if_splits dest!: run_w_D)
next
  fix r w assume "owed_go opts r w \<and> last_w w = Some j \<and> (insideSuite w = None \<or> insideSuite w = Some (Suite j))"
  then show "flow_sat (owed_stop opts) (\<lambda>r w. owed_go opts r w \<and> last_w w = Some j) (enter_suite j r w)"
    unfolding enter_suite_def flow_sat_def
    by (auto simp: owed_go_def owed_stop_def restore_inv_def add_def Let_def
        split: prod.splits if_splits dest!: run_w_D)
next
  fix r w assume "owed_go opts r w \<and> last_w w = Some j"
  then show "flow_sat (owed_stop opts) (owed_task opts j) (task_run j r w)"
    unfolding task_run_def flow_sat_def
    by (auto simp: owed_go_def owed_task_def restore_inv_def add_def
        split: prod.splits if_splits dest!: run_w_D)
next
  fix r w assume "owed_task opts j r w"
  then show "flow_sat (owed_stop opts) (owed_stop opts) (task_restore j r w)"
    unfolding task_restore_def flow_sat_def
    by (auto simp: owed_task_def owed_stop_def restore_inv_def add_def
        split: prod.splits if_splits dest!: run_w_D)
qed

lemma prepared_loop_body:
  assumes "prep_ok opts r w" and nr: "\<not> Restore opts"
  shows "case loop_body j r w of (r', w') \<Rightarrow> prep_ok opts r' w'"
proof (rule loop_body_rule[where
      Ga = "prep_ok opts" and Gb = "prep_ok opts" and Gc = "prep_ok opts" and
      Gd = "prep_ok opts" and Ge = "prep_ok opts" and S = "prep_ok opts"])
  show "prep_ok opts r w" by (rule assms)
next
  fix r w assume "prep_ok opts r w"
  then show "flow_sat (prep_ok opts) (prep_ok opts) (bad_suite_check j r w)"
    by (auto simp: bad_suite_check_def flow_sat_def prep_ok_def add_def)
next
  fix r w assume "prep_ok opts r w"
  then show "flow_sat (prep_ok opts) (prep_ok opts) (suite_switch j r w)"
    unfolding suite_switch_def flow_sat_def
    by (auto simp: prep_ok_def prepared_inv_def add_def
        split: option.splits prod.splits if_splits dest!: run_last_D)
next
  fix r w assume "prep_ok opts r w"
  then show "flow_sat (prep_ok opts) (prep_ok opts) (project_prepare j r w)"
    unfolding project_prepare_def flow_sat_def using nr
    by (auto simp: prep_ok_def prepared_inv_def add_def Let_def
        split: prod.splits if_splits dest!: run_w_D)
next
  fix r w assume "prep_ok opts r w"
  then show "flow_sat (prep_ok opts) (prep_ok opts) (backend_prepare j r w)"
    unfolding backend_prepare_def flow_sat_def using nr
    by (auto simp: prep_ok_def prepared_inv_def add_def Let_def
        split: prod.splits if_splits dest!: run_w_D)
next
  fix r w assume "prep_ok opts r w"
  then show "flow_sat (prep_ok opts) (prep_ok opts) (enter_suite j r w)"
    unfolding enter_suite_def flow_sat_def using nr
    by (auto simp: prep_ok_def prepared_inv_def add_def Let_def
        split: prod.splits if_splits dest!: run_w_D)
next
  fix r w assume "prep_ok opts r w"
  then show "flow_sat (prep_ok opts) (prep_ok opts) (task_run j r w)"
    unfolding task_run_def flow_sat_def
    by (auto simp: prep_ok_def prepared_inv_def add_def
        split: prod.splits if_splits dest!: run_w_D)
next
  fix r w assume "prep_ok opts r w"
  then show "flow_sat (prep_ok opts) (prep_ok opts) (task_restore j r w)"
    unfolding task_restore_def flow_sat_def
    by (auto simp: prep_ok_def prepared_inv_def add_def
        split: prod.splits if_splits dest!: run_w_D)
qed

lemma restores_loop_body:
  assumes "restores_ok opts r w" and re: "Restore opts"
  shows "case loop_body j r w of (r', w') \<Rightarrow> restores_ok opts r' w'"
proof (rule loop_body_rule[where
      Ga = "restores_ok opts" and Gb = "restores_ok opts" and Gc = "restores_ok opts" and
      Gd = "restores_ok opts" and Ge = "restores_ok opts" and S = "restores_ok opts"])
  show "restores_ok opts r w" by (rule assms)
next
  fix r w assume "restores_ok opts r w"
  then show "flow_sat (restores_ok opts) (restores_ok opts) (bad_suite_check j r w)"
    by (auto simp: bad_suite_check_def flow_sat_def restores_ok_def add_def)
next
  fix r w assume "restores_ok opts r w"
  then show "flow_sat (restores_ok opts) (restores_ok opts) (suite_switch j r w)"
    unfolding suite_switch_def flow_sat_def
    by (auto simp: restores_ok_def only_restores_def add_def
        split: option.splits prod.splits if_splits dest!: run_last_D)
next
  fix r w assume "restores_ok opts r w"
  then show "flow_sat (restores_ok opts) (restores_ok opts) (project_prepare j r w)"
    unfolding project_prepare_def flow_sat_def using re
    by (auto simp: restores_ok_def only_restores_def add_def Let_def)
next
  fix r w assume "restores_ok opts r w"
  then show "flow_sat (restores_ok opts) (restores_ok opts) (backend_prepare j r w)"
    unfolding backend_prepare_def flow_sat_def using re
    by (auto simp: restores_ok_def only_restores_def add_def Let_def)
next
  fix r w assume "restores_ok opts r w"
  then show "flow_sat (restores_ok opts) (restores_ok opts) (enter_suite j r w)"
    unfolding enter_suite_def flow_sat_def using re
    by (auto simp: restores_ok_def only_restores_def add_def Let_def)
next
  fix r w assume "restores_ok opts r w"
  then show "flow_sat (restores_ok opts) (restores_ok opts) (task_run j r w)"
    unfolding task_run_def flow_sat_def using re
    by (auto simp: restores_ok_def only_restores_def add_def)
next
  fix r w assume "restores_ok opts r w"
  then show "flow_sat (restores_ok opts) (restores_ok opts) (task_restore j r w)"
    unfolding task_restore_def flow_sat_def
    by (auto simp: restores_ok_def only_restores_def add_def
        split: prod.splits if_splits dest!: run_w_D)
qed

lemma outside_frame_refl: "outside_frame r r"
  by (simp add: outside_frame_def)

lemma outside_frame_trans: "outside_frame r r1 \<Longrightarrow> outside_frame r1 r2 \<Longrightarrow> outside_frame r r2"
  by (simp add: outside_frame_def)

lemma client_pass_frame: "client_pass r b orc = (r', res) \<Longrightarrow> outside_frame r r'"
  unfolding client_pass_def claim_or_allocate_def connect_and_send_def outside_frame_def
  by (auto split: prod.splits option.splits if_splits sum.splits alloc_outcome.splits
      srv.splits bool.splits)

lemma client_frame: "client r b orcs = (r', res) \<Longrightarrow> outside_frame r r'"
proof (induction orcs arbitrary: r)
  case Nil
  then show ?case by (auto simp: outside_frame_def split: if_splits)
next
  case (Cons orc rest)
  show ?case
  proof (cases "tomb_alive r")
    case False
    with Cons.prems show ?thesis by (simp add: outside_frame_refl)
  next
    case True
    obtain r1 pr where cp: "client_pass r b orc = (r1, pr)" by (cases "client_pass r b orc")
    note f1 = client_pass_frame[OF cp]
    show ?thesis
    proof (cases pr)
      case Retry
      with Cons.prems True cp have "client r1 b rest = (r', res)" by simp
      from outside_frame_trans[OF f1 Cons.IH[OF this]] show ?thesis .
    next
      case ReturnNil
      with Cons.prems True cp f1 show ?thesis by simp
    next
      case (ReturnClient s)
      with Cons.prems True cp f1 show ?thesis by simp
    next
      case Stuck
      with Cons.prems True cp f1 show ?thesis by simp
    qed
  qed
qed


lemma unwind_rule:
  assumes "Pa r w"
    and "\<And>r w. Pa r w \<Longrightarrow> case unwind_suite r w of (r', w') \<Rightarrow> Pb r' w'"
    and "\<And>r w. Pb r w \<Longrightarrow> case unwind_backend r w of (r', w') \<Rightarrow> Pc r' w'"
    and "\<And>r w. Pc r w \<Longrightarrow> case unwind_project r w of (r', w') \<Rightarrow> Pd r' w'"
    and "\<And>r w. Pd r w \<Longrightarrow> status w = Crashed \<Longrightarrow> Q r w"
    and "\<And>r w d. Pd r w \<Longrightarrow> status w \<noteq> Crashed \<Longrightarrow>
           Q (r\<lparr>done_chan := done_chan r + 1\<rparr>) (w\<lparr>status := Done, discarded := d\<rparr>)"
  shows "case worker_unwind r w of (r', w') \<Rightarrow> Q r' w'"
proof -
  obtain r1 w1 where 1: "unwind_suite r w = (r1, w1)" by (cases "unwind_suite r w")
  obtain r2 w2 where 2: "unwind_backend r1 w1 = (r2, w2)" by (cases "unwind_backend r1 w1")
  obtain r3 w3 where 3: "unwind_project r2 w2 = (r3, w3)" by (cases "unwind_project r2 w2")
  have b: "Pb r1 w1" using assms(2)[OF assms(1)] 1 by simp
  have c: "Pc r2 w2" using assms(3)[OF b] 2 by simp
  have d: "Pd r3 w3" using assms(4)[OF c] 3 by simp
  show ?thesis
    using assms(5)[OF d] assms(6)[OF d] by (simp add: worker_unwind_def 1 2 3)
qed

lemma last_inv_unwind:
  assumes "last_inv w"
  shows "case worker_unwind r w of (r', w') \<Rightarrow> last_inv w'"
proof (rule unwind_rule[where Pa = "\<lambda>r. last_inv" and Pb = "\<lambda>r. last_inv"
      and Pc = "\<lambda>r. last_inv" and Pd = "\<lambda>r. last_inv"])
  show "last_inv w" by (rule assms)
next
  fix r w assume "last_inv w"
  then show "case unwind_suite r w of (r', w') \<Rightarrow> last_inv w'"
    by (auto simp: unwind_suite_def last_inv_def split: option.splits
        dest!: run_last_D run_last_None_D)
next
  fix r w assume "last_inv w"
  then show "case unwind_backend r w of (r', w') \<Rightarrow> last_inv w'"
    by (auto simp: unwind_backend_def last_inv_def split: option.splits
        dest!: run_last_D run_last_None_D)
next
  fix r w assume "last_inv w"
  then show "case unwind_project r w of (r', w') \<Rightarrow> last_inv w'"
    by (auto simp: unwind_project_def last_inv_def split: option.splits
        dest!: run_last_D run_last_None_D)
next
  fix r w assume "last_inv w" "status w = Crashed"
  then show "last_inv w" by simp
next
  fix r w d assume "last_inv w" "status w \<noteq> Crashed"
  then show "last_inv (w\<lparr>status := Done, discarded := d\<rparr>)" by (simp add: last_inv_def)
qed

lemma owed_unwind:
  assumes "options r = opts" "restore_inv opts w"
  shows "case worker_unwind r w of (r', w') \<Rightarrow>
     status w' = Crashed \<or>
     (status w' = Done \<and> options r' = opts \<and> restore_inv opts w' \<and> (\<not> abend w' \<longrightarrow> flags_off w'))"
proof (rule unwind_rule[where Pa = "owed_unwound opts False False False"
      and Pb = "owed_unwound opts True False False"
      and Pc = "owed_unwound opts True True False"
      and Pd = "owed_unwound opts True True True"])
  show "owed_unwound opts False False False r w"
    using assms by (simp add: owed_unwound_def)
next
  fix r w assume "owed_unwound opts False False False r w"
  then show "case unwind_suite r w of (r', w') \<Rightarrow> owed_unwound opts True False False r' w'"
    by (auto simp: unwind_suite_def owed_unwound_def restore_inv_def add_def
        split: option.splits if_splits dest!: run_last_D)
next
  fix r w assume "owed_unwound opts True False False r w"
  then show "case unwind_backend r w of (r', w') \<Rightarrow> owed_unwound opts True True False r' w'"
    by (auto simp: unwind_backend_def owed_unwound_def restore_inv_def add_def
        split: option.splits if_splits dest!: run_last_D)
next
  fix r w assume "owed_unwound opts True True False r w"
  then show "case unwind_project r w of (r', w') \<Rightarrow> owed_unwound opts True True True r' w'"
    by (auto simp: unwind_project_def owed_unwound_def restore_inv_def add_def
        split: option.splits if_splits dest!: run_last_D)
next
  fix r w assume "owed_unwound opts True True True r w" "status w = Crashed"
  then show "status w = Crashed \<or>
     (status w = Done \<and> options r = opts \<and> restore_inv opts w \<and> (\<not> abend w \<longrightarrow> flags_off w))"
    by simp
next
  fix r w d assume "owed_unwound opts True True True r w" "status w \<noteq> Crashed"
  then show "status (w\<lparr>status := Done, discarded := d\<rparr>) = Crashed \<or>
     (status (w\<lparr>status := Done, discarded := d\<rparr>) = Done \<and>
      options (r\<lparr>done_chan := done_chan r + 1\<rparr>) = opts \<and>
      restore_inv opts (w\<lparr>status := Done, discarded := d\<rparr>) \<and>
      (\<not> abend (w\<lparr>status := Done, discarded := d\<rparr>) \<longrightarrow>
         flags_off (w\<lparr>status := Done, discarded := d\<rparr>)))"
    by (auto simp: owed_unwound_def restore_inv_def flags_off_def)
qed

lemma prepared_unwind:
  assumes "prepared_inv w"
  shows "case worker_unwind r w of (r', w') \<Rightarrow> prepared_inv w'"
proof (rule unwind_rule[where Pa = "\<lambda>r. prepared_inv" and Pb = "\<lambda>r. prepared_inv"
      and Pc = "\<lambda>r. prepared_inv" and Pd = "\<lambda>r. prepared_inv"])
  show "prepared_inv w" by (rule assms)
next
  fix r w assume "prepared_inv w"
  then show "case unwind_suite r w of (r', w') \<Rightarrow> prepared_inv w'"
    by (auto simp: unwind_suite_def prepared_inv_def split: option.splits if_splits
        dest!: run_last_D)
next
  fix r w assume "prepared_inv w"
  then show "case unwind_backend r w of (r', w') \<Rightarrow> prepared_inv w'"
    by (auto simp: unwind_backend_def prepared_inv_def split: option.splits if_splits
        dest!: run_last_D)
next
  fix r w assume "prepared_inv w"
  then show "case unwind_project r w of (r', w') \<Rightarrow> prepared_inv w'"
    by (auto simp: unwind_project_def prepared_inv_def split: option.splits if_splits
        dest!: run_last_D)
next
  fix r w assume "prepared_inv w" "status w = Crashed"
  then show "prepared_inv w" by simp
next
  fix r w d assume "prepared_inv w" "status w \<noteq> Crashed"
  then show "prepared_inv (w\<lparr>status := Done, discarded := d\<rparr>)" by (simp add: prepared_inv_def)
qed

lemma restores_unwind:
  assumes "only_restores w"
  shows "case worker_unwind r w of (r', w') \<Rightarrow> only_restores w'"
proof (rule unwind_rule[where Pa = "\<lambda>r. only_restores" and Pb = "\<lambda>r. only_restores"
      and Pc = "\<lambda>r. only_restores" and Pd = "\<lambda>r. only_restores"])
  show "only_restores w" by (rule assms)
next
  fix r w assume "only_restores w"
  then show "case unwind_suite r w of (r', w') \<Rightarrow> only_restores w'"
    by (auto simp: unwind_suite_def only_restores_def split: option.splits if_splits
        dest!: run_last_D)
next
  fix r w assume "only_restores w"
  then show "case unwind_backend r w of (r', w') \<Rightarrow> only_restores w'"
    by (auto simp: unwind_backend_def only_restores_def split: option.splits if_splits
        dest!: run_last_D)
next
  fix r w assume "only_restores w"
  then show "case unwind_project r w of (r', w') \<Rightarrow> only_restores w'"
    by (auto simp: unwind_project_def only_restores_def split: option.splits if_splits
        dest!: run_last_D)
next
  fix r w assume "only_restores w" "status w = Crashed"
  then show "only_restores w" by simp
next
  fix r w d assume "only_restores w" "status w \<noteq> Crashed"
  then show "only_restores (w\<lparr>status := Done, discarded := d\<rparr>)" by (simp add: only_restores_def)
qed


lemmas worker_ok_defs = worker_ok_def last_inv_def restore_inv_def prepared_inv_def
  only_restores_def flags_off_def

lemma worker_ok_status:
  assumes "worker_ok opts w" "st \<noteq> Crashed" "st = Picked \<longrightarrow> \<not> abend w"
    "st = Acquiring \<or> (st = Done \<and> \<not> abend w) \<longrightarrow> flags_off w"
  shows "worker_ok opts (w\<lparr>status := st\<rparr>)"
  using assms by (simp add: worker_ok_defs)

lemma worker_ok_job_w [simp]: "worker_ok opts (w\<lparr>job_w := x\<rparr>) = worker_ok opts w"
  by (simp add: worker_ok_defs)

lemma worker_ok_acquire_passes [simp]:
  "worker_ok opts (w\<lparr>acquire_passes := x\<rparr>) = worker_ok opts w"
  by (simp add: worker_ok_defs)

lemma worker_ok_server_w [simp]: "worker_ok opts (w\<lparr>server_w := x\<rparr>) = worker_ok opts w"
  by (simp add: worker_ok_defs)

lemma worker_ok_acquire:
  assumes "options r = opts" "worker_ok opts w" "status w = Acquiring"
    "worker_acquire r w = (r', w')"
  shows "options r' = opts \<and> worker_ok opts w'"
proof -
  obtain r1 res where c: "client r (backend_w w) (acquire_passes w) = (r1, res)"
    by (cases "client r (backend_w w) (acquire_passes w)")
  from client_frame[OF c] assms(1) have o: "options r1 = opts" by (simp add: outside_frame_def)
  have f: "flags_off w" using assms(2,3) by (simp add: worker_ok_def)
  show ?thesis
  proof (cases res)
    case None
    with assms(4) c have "r' = r1" "w' = w\<lparr>acquire_passes := []\<rparr>"
      by (simp_all add: worker_acquire_def)
    with o assms(2) show ?thesis by simp
  next
    case (Some x)
    show ?thesis
    proof (cases x)
      case None
      with Some assms(4) c have "r' = r1\<lparr>done_chan := done_chan r1 + 1\<rparr>" "w' = w\<lparr>status := Done\<rparr>"
        by (simp_all add: worker_acquire_def)
      with o worker_ok_status[OF assms(2), of Done] f show ?thesis by simp
    next
      case (Some sv)
      with \<open>res = Some x\<close> assms(4) c
      have "r' = r1" "w' = w\<lparr>status := AtHead, server_w := Some sv\<rparr>"
        by (simp_all add: worker_acquire_def)
      with o worker_ok_status[OF assms(2), of AtHead] show ?thesis by simp
    qed
  qed
qed

lemma worker_head_effect:
  assumes "worker_head r w = (r', w')"
  shows "options r' = options r \<and>
     (\<exists>jo st. w' = w\<lparr>job_w := jo, status := st\<rparr> \<and>
        (st = Unwinding \<or> (st = Picked \<and> \<not> abend w)))"
proof -
  have e: "w\<lparr>status := Unwinding\<rparr> = w\<lparr>job_w := job_w w, status := Unwinding\<rparr>" by simp
  show ?thesis
    using assms unfolding worker_head_def Let_def
    by (auto split: option.splits prod.splits if_splits intro: e)
qed

lemma worker_ok_head:
  assumes "options r = opts" "worker_ok opts w" "worker_head r w = (r', w')"
  shows "options r' = opts \<and> worker_ok opts w'"
proof -
  from worker_head_effect[OF assms(3)] obtain jo st where
    o: "options r' = options r" and w: "w' = w\<lparr>job_w := jo, status := st\<rparr>"
    and s: "st = Unwinding \<or> (st = Picked \<and> \<not> abend w)" by blast
  have "worker_ok opts ((w\<lparr>job_w := jo\<rparr>)\<lparr>status := st\<rparr>)"
    by (rule worker_ok_status) (use assms(2) s in auto)
  then show ?thesis using o w assms(1) by simp
qed

lemma worker_ok_body:
  assumes o: "options r = opts" and ok: "worker_ok opts w" and p: "status w = Picked"
    and b: "worker_body r w j = (r', w')"
  shows "options r' = opts \<and> worker_ok opts w'"
proof -
  obtain r1 w1 where lb: "loop_body j r w = (r1, w1)" by (cases "loop_body j r w")
  have li: "last_inv w1"
    using last_inv_loop_body[of w j r] ok lb by (simp add: worker_ok_def)
  then have nc: "status w1 \<noteq> Crashed" by (simp add: last_inv_def)
  have "owed_go opts r w" using o ok p by (simp add: owed_go_def worker_ok_def)
  from owed_loop_body[OF this, of j] lb nc
  have o1: "options r1 = opts" and ri: "restore_inv opts w1" by (simp_all add: owed_stop_def)
  have pi: "prepared_inv w1" if "\<not> Restore opts"
    using prepared_loop_body[of opts r w j] that o ok lb by (simp add: prep_ok_def worker_ok_def)
  have orr: "only_restores w1" if "Restore opts"
    using restores_loop_body[of opts r w j] that o ok lb by (simp add: restores_ok_def worker_ok_def)
  from b lb nc have e: "r' = r1" "w' = w1\<lparr>status := AtHead\<rparr>"
    by (simp_all add: worker_body_def)
  show ?thesis
    unfolding e using o1 li ri pi orr
    by (auto simp: worker_ok_defs)
qed

lemma worker_ok_unwind:
  assumes o: "options r = opts" and ok: "worker_ok opts w"
    and u: "worker_unwind r w = (r', w')"
  shows "options r' = opts \<and> worker_ok opts w'"
proof -
  have li: "last_inv w'" using last_inv_unwind[of w r] ok u by (simp add: worker_ok_def)
  then have nc: "status w' \<noteq> Crashed" by (simp add: last_inv_def)
  have "restore_inv opts w" using ok by (simp add: worker_ok_def)
  from owed_unwind[OF o this] u nc
  have d: "status w' = Done" "options r' = opts" "restore_inv opts w'"
    "\<not> abend w' \<longrightarrow> flags_off w'" by simp_all
  have pi: "prepared_inv w'" if "\<not> Restore opts"
    using prepared_unwind[of w r] that ok u by (simp add: worker_ok_def)
  have orr: "only_restores w'" if "Restore opts"
    using restores_unwind[of w r] that ok u by (simp add: worker_ok_def)
  show ?thesis using li d pi orr by (simp add: worker_ok_def)
qed

lemma worker_ok_step:
  assumes "options r = opts" "worker_ok opts w" "worker_step r w = (r', w')"
  shows "options r' = opts \<and> worker_ok opts w'"
proof (cases "status w")
  case Acquiring
  with assms(3) have "worker_acquire r w = (r', w')" by (simp add: worker_step_def)
  from worker_ok_acquire[OF assms(1,2) Acquiring this] show ?thesis .
next
  case AtHead
  with assms(3) have "worker_head r w = (r', w')" by (simp add: worker_step_def)
  from worker_ok_head[OF assms(1,2) this] show ?thesis .
next
  case Picked
  show ?thesis
  proof (cases "job_w w")
    case None
    with Picked assms show ?thesis by (simp add: worker_step_def)
  next
    case (Some j)
    with Picked assms(3) have "worker_body r w j = (r', w')" by (simp add: worker_step_def)
    from worker_ok_body[OF assms(1,2) Picked this] show ?thesis .
  qed
next
  case Unwinding
  with assms(3) have "worker_unwind r w = (r', w')" by (simp add: worker_step_def)
  from worker_ok_unwind[OF assms(1,2) this] show ?thesis .
next
  case Done
  with assms show ?thesis by (simp add: worker_step_def)
next
  case Crashed
  with assms show ?thesis by (simp add: worker_step_def)
qed

lemma abort_pending_options: "options (abort_pending ps r) = options r"
  by (induction ps r rule: abort_pending.induct) (simp_all add: add_def)

lemma supervisor_recv_options: "options (supervisor_recv r) = options r"
  by (simp add: supervisor_recv_def Let_def abort_pending_options)

lemma all_ok_sys_step:
  assumes "all_ok opts st"
  shows "all_ok opts (sys_step e st)"
proof -
  obtain r ws where st: "st = (r, ws)" by (cases st)
  from assms st have o: "options r = opts" and a: "list_all (worker_ok opts) ws"
    by (simp_all add: all_ok_def)
  show ?thesis
  proof (cases "list_ex (\<lambda>w. status w = Crashed) ws")
    case True
    then show ?thesis using assms st by simp
  next
    case nc: False
    show ?thesis
    proof (cases e)
      case (Step i)
      show ?thesis
      proof (cases "i < length ws")
        case False
        then show ?thesis using nc assms st Step by simp
      next
        case True
        obtain r1 w1 where ws: "worker_step r (ws ! i) = (r1, w1)"
          by (cases "worker_step r (ws ! i)")
        have "worker_ok opts (ws ! i)" using a True by (simp add: list_all_length)
        from worker_ok_step[OF o this ws] have o1: "options r1 = opts" and k: "worker_ok opts w1"
          by simp_all
        have "list_all (worker_ok opts) (ws[i := w1])"
          using a k True by (auto simp: list_all_length nth_list_update)
        then show ?thesis using nc st Step True ws o1 by (simp add: all_ok_def)
      qed
    next
      case Recv
      then show ?thesis using nc st o a by (simp add: all_ok_def supervisor_recv_options)
    next
      case Kill
      then show ?thesis using nc st o a by (simp add: all_ok_def)
    qed
  qed
qed

lemma all_ok_run_schedule:
  "all_ok opts st \<Longrightarrow> all_ok opts (run_schedule sch st)"
  unfolding run_schedule_def
  by (induction sch arbitrary: st) (simp_all add: all_ok_sys_step)

lemma worker_ok_init: "worker_ok opts (init_worker b sys orc)"
  by (simp add: worker_ok_defs init_worker_def)

lemma all_ok_loop_start: "all_ok opts (loop_start p opts js env)"
  by (auto simp: all_ok_def loop_start_def list_all_iff worker_ok_init split: prod.splits)

lemma reachable_worker_ok:
  assumes "run_schedule sch (loop_start p opts js env) = (r, ws)" and "w \<in> set ws"
  shows "worker_ok opts w"
  using all_ok_run_schedule[OF all_ok_loop_start, of opts sch p js env] assms
  by (simp add: all_ok_def list_all_iff)

section \<open>Further invariants of a worker\<close>

lemma loop_body_rule_gen:
  assumes "Ga r w"
    and "\<And>r w. Ga r w \<Longrightarrow> flow_sat S Gb (bad_suite_check j r w)"
    and "\<And>r w. Gb r w \<Longrightarrow> flow_sat S Gc (suite_switch j r w)"
    and "\<And>r w. Gc r w \<Longrightarrow> \<not> insideProject w \<Longrightarrow> flow_sat S Gp (project_prepare j r w)"
    and "\<And>r w. Gp r w \<Longrightarrow> flow_sat S Gq (backend_prepare j r w)"
    and "\<And>r w. Gc r w \<Longrightarrow> insideProject w \<Longrightarrow> Gq r w"
    and "\<And>r w. Gq r w \<Longrightarrow> flow_sat S Gd (enter_suite j r w)"
    and "\<And>r w. Gd r w \<Longrightarrow> flow_sat S Ge (task_run j r w)"
    and "\<And>r w. Ge r w \<Longrightarrow> flow_sat S S (task_restore j r w)"
  shows "case loop_body j r w of (r', w') \<Rightarrow> S r' w'"
proof -
  have ep: "flow_sat S Gq (enter_project j r w)" if g: "Gc r w" for r w
  proof (cases "insideProject w")
    case True
    then show ?thesis using assms(6)[OF g] by (simp add: enter_project_def flow_sat_def)
  next
    case False
    have "flow_sat S Gq (and_then (project_prepare j r w) (backend_prepare j))"
      by (rule flow_sat_and_then[OF assms(4)[OF g False]]) (rule assms(5))
    then show ?thesis using False by (simp add: enter_project_def)
  qed
  have 1: "flow_sat S Gb (bad_suite_check j r w)"
    by (rule assms(2)[OF assms(1)])
  have 2: "flow_sat S Gc (and_then (bad_suite_check j r w) (suite_switch j))"
    by (rule flow_sat_and_then[OF 1]) (rule assms(3))
  have 3: "flow_sat S Gq
      (and_then (and_then (bad_suite_check j r w) (suite_switch j)) (enter_project j))"
    by (rule flow_sat_and_then[OF 2]) (rule ep)
  have 4: "flow_sat S Gd
      (and_then (and_then (and_then (bad_suite_check j r w) (suite_switch j)) (enter_project j))
         (enter_suite j))"
    by (rule flow_sat_and_then[OF 3]) (rule assms(7))
  have 5: "flow_sat S Ge
      (and_then (and_then (and_then (and_then (bad_suite_check j r w) (suite_switch j))
         (enter_project j)) (enter_suite j)) (task_run j))"
    by (rule flow_sat_and_then[OF 4]) (rule assms(8))
  have 6: "flow_sat S S
      (and_then (and_then (and_then (and_then (and_then (bad_suite_check j r w) (suite_switch j))
         (enter_project j)) (enter_suite j)) (task_run j)) (task_restore j))"
    by (rule flow_sat_and_then[OF 5]) (rule assms(9))
  show ?thesis unfolding loop_body_def by (rule flow_sat_end[OF 6])
qed

lemma run_traced:
  "run opts j v c (script_of p v c) ab t = (ok, ab', calls) \<Longrightarrow> traced p opts (Run v c ok calls)"
  by (auto simp: run_def traced_def Let_def split: if_splits)

lemma run_w_traced:
  assumes "run_w opts w j v c s = (ok, w1)" and "s = script_of p v c"
  shows "\<exists>calls ab. w1 = w\<lparr>abend := ab, history := history w @ [Run v c ok calls]\<rparr> \<and>
      traced p opts (Run v c ok calls)"
proof -
  obtain ab calls where
    r: "run opts j v c (script_of p v c) (abend w) (trace_results w (length (history w))) = (ok, ab, calls)"
    and w1: "w1 = w\<lparr>abend := ab, history := history w @ [Run v c ok calls]\<rparr>"
    using assms by (auto simp: run_w_def split: prod.splits)
  from run_traced[OF r] w1 show ?thesis by blast
qed

lemma run_last_traced:
  assumes "run_last opts w v c s = Some (ok, w1)" and "s = script_of p v c"
  shows "\<exists>calls ab. w1 = w\<lparr>abend := ab, history := history w @ [Run v c ok calls]\<rparr> \<and>
      traced p opts (Run v c ok calls)"
proof (cases "last_w w")
  case (Some l)
  with assms(1) have "run_w opts w l v c s = (ok, w1)" by (simp add: run_last_def)
  from run_w_traced[OF this assms(2)] show ?thesis .
next
  case None
  with assms(1) have b: "TrimSpace s = []" and k: "ok"
    and w1: "w1 = w\<lparr>history := history w @ [Run v c True []]\<rparr>"
    by (auto simp: run_last_def split: if_splits)
  have "w1 = w\<lparr>abend := abend w, history := history w @ [Run v c ok []]\<rparr>"
    using w1 k by simp
  moreover have "traced p opts (Run v c ok [])"
    using b k assms(2) by (simp add: traced_def)
  ultimately show ?thesis by blast
qed

lemma traced_loop_body:
  assumes "all_traced p opts r w"
  shows "case loop_body j r w of (r', w') \<Rightarrow> all_traced p opts r' w'"
proof (rule loop_body_rule[where
      Ga = "all_traced p opts" and Gb = "all_traced p opts" and Gc = "all_traced p opts" and
      Gd = "all_traced p opts" and Ge = "all_traced p opts" and S = "all_traced p opts"])
  show "all_traced p opts r w" by (rule assms)
next
  fix r w assume "all_traced p opts r w"
  then show "flow_sat (all_traced p opts) (all_traced p opts) (bad_suite_check j r w)"
    by (auto simp: bad_suite_check_def flow_sat_def all_traced_def add_def)
next
  fix r w assume a: "all_traced p opts r w"
  show "flow_sat (all_traced p opts) (all_traced p opts) (suite_switch j r w)"
  proof (cases "insideSuite w")
    case None
    with a show ?thesis by (simp add: suite_switch_def flow_sat_def all_traced_def)
  next
    case (Some s)
    show ?thesis
    proof (cases "run_last (options r) w restoring (CtxSuite s) (Restore_suite s)")
      case None
      with Some a show ?thesis by (simp add: suite_switch_def flow_sat_def all_traced_def)
    next
      case (Some x)
      obtain ok w1 where x: "x = (ok, w1)" by (cases x)
      have "Restore_suite s = script_of p restoring (CtxSuite s)" by (simp add: script_of_def)
      from run_last_traced[OF Some[unfolded x] this] a
      have "list_all (traced p opts) (history w1)" by (auto simp: all_traced_def)
      with a \<open>insideSuite w = Some s\<close> Some x show ?thesis
        by (simp add: suite_switch_def flow_sat_def all_traced_def add_def)
    qed
  qed
next
  fix r w assume a: "all_traced p opts r w"
  obtain ok w2 where e: "run_w (options r) (w\<lparr>insideProject := True\<rparr>) j preparing CtxProject
      (Prepare_project (project r)) = (ok, w2)"
    by (cases "run_w (options r) (w\<lparr>insideProject := True\<rparr>) j preparing CtxProject
      (Prepare_project (project r))")
  have "Prepare_project (project r) = script_of p preparing CtxProject"
    using a by (simp add: script_of_def all_traced_def)
  from run_w_traced[OF e this] a
  have "list_all (traced p opts) (history w2)" by (auto simp: all_traced_def)
  with a e show "flow_sat (all_traced p opts) (all_traced p opts) (project_prepare j r w)"
    by (simp add: project_prepare_def flow_sat_def all_traced_def add_def Let_def)
next
  fix r w assume a: "all_traced p opts r w"
  obtain ok w2 where e: "run_w (options r) (w\<lparr>insideBackend := True\<rparr>) j preparing
      (CtxBackend (backend_w w)) (Prepare_backend (backend_w w)) = (ok, w2)"
    by (cases "run_w (options r) (w\<lparr>insideBackend := True\<rparr>) j preparing
      (CtxBackend (backend_w w)) (Prepare_backend (backend_w w))")
  have "Prepare_backend (backend_w w) = script_of p preparing (CtxBackend (backend_w w))"
    by (simp add: script_of_def)
  from run_w_traced[OF e this] a
  have "list_all (traced p opts) (history w2)" by (auto simp: all_traced_def)
  with a e show "flow_sat (all_traced p opts) (all_traced p opts) (backend_prepare j r w)"
    by (simp add: backend_prepare_def flow_sat_def all_traced_def add_def Let_def)
next
  fix r w assume a: "all_traced p opts r w"
  obtain ok w2 where e: "run_w (options r) (w\<lparr>insideSuite := Some (Suite j)\<rparr>) j preparing
      (CtxSuite (Suite j)) (Prepare_suite (Suite j)) = (ok, w2)"
    by (cases "run_w (options r) (w\<lparr>insideSuite := Some (Suite j)\<rparr>) j preparing
      (CtxSuite (Suite j)) (Prepare_suite (Suite j))")
  have "Prepare_suite (Suite j) = script_of p preparing (CtxSuite (Suite j))"
    by (simp add: script_of_def)
  from run_w_traced[OF e this] a
  have "list_all (traced p opts) (history w2)" by (auto simp: all_traced_def)
  with a e show "flow_sat (all_traced p opts) (all_traced p opts) (enter_suite j r w)"
    by (simp add: enter_suite_def flow_sat_def all_traced_def add_def Let_def)
next
  fix r w assume a: "all_traced p opts r w"
  obtain ok w1 where e1: "run_w (options r) w j preparing (CtxJob j) (Prepare_task (Task j)) = (ok, w1)"
    by (cases "run_w (options r) w j preparing (CtxJob j) (Prepare_task (Task j))")
  obtain ok2 w2 where e2: "run_w (options r) w1 j executing (CtxJob j) (Execute_task (Task j)) = (ok2, w2)"
    by (cases "run_w (options r) w1 j executing (CtxJob j) (Execute_task (Task j))")
  have "Prepare_task (Task j) = script_of p preparing (CtxJob j)" by (simp add: script_of_def)
  from run_w_traced[OF e1 this] a
  have t1: "list_all (traced p opts) (history w1)" by (auto simp: all_traced_def)
  have "Execute_task (Task j) = script_of p executing (CtxJob j)" by (simp add: script_of_def)
  from run_w_traced[OF e2 this] t1 a
  have t2: "list_all (traced p opts) (history w2)" by (auto simp: all_traced_def)
  from a e1 e2 t1 t2 show "flow_sat (all_traced p opts) (all_traced p opts) (task_run j r w)"
    by (simp add: task_run_def flow_sat_def all_traced_def add_def)
next
  fix r w assume a: "all_traced p opts r w"
  obtain ok w1 where e: "run_w (options r) w j restoring (CtxJob j) (Restore_task (Task j)) = (ok, w1)"
    by (cases "run_w (options r) w j restoring (CtxJob j) (Restore_task (Task j))")
  have "Restore_task (Task j) = script_of p restoring (CtxJob j)" by (simp add: script_of_def)
  from run_w_traced[OF e this] a
  have "list_all (traced p opts) (history w1)" by (auto simp: all_traced_def)
  with a e show "flow_sat (all_traced p opts) (all_traced p opts) (task_restore j r w)"
    by (simp add: task_restore_def flow_sat_def all_traced_def add_def)
qed

lemma traced_unwind:
  assumes "all_traced p opts r w"
  shows "case worker_unwind r w of (r', w') \<Rightarrow> all_traced p opts r' w'"
proof (rule unwind_rule[where Pa = "all_traced p opts" and Pb = "all_traced p opts"
      and Pc = "all_traced p opts" and Pd = "all_traced p opts"])
  show "all_traced p opts r w" by (rule assms)
next
  fix r w assume a: "all_traced p opts r w"
  show "case unwind_suite r w of (r', w') \<Rightarrow> all_traced p opts r' w'"
  proof (cases "insideSuite w")
    case None
    with a show ?thesis by (simp add: unwind_suite_def)
  next
    case (Some s)
    show ?thesis
    proof (cases "run_last (options r) w restoring (CtxSuite s) (Restore_suite s)")
      case None
      with Some a show ?thesis by (simp add: unwind_suite_def all_traced_def)
    next
      case (Some x)
      obtain ok w1 where x: "x = (ok, w1)" by (cases x)
      have "Restore_suite s = script_of p restoring (CtxSuite s)" by (simp add: script_of_def)
      from run_last_traced[OF Some[unfolded x] this] a
      have "list_all (traced p opts) (history w1)" by (auto simp: all_traced_def)
      with a \<open>insideSuite w = Some s\<close> Some x show ?thesis
        by (simp add: unwind_suite_def all_traced_def add_def)
    qed
  qed
next
  fix r w assume a: "all_traced p opts r w"
  show "case unwind_backend r w of (r', w') \<Rightarrow> all_traced p opts r' w'"
  proof (cases "run_last (options r) w restoring (CtxBackend (backend_w w))
                (Restore_backend (backend_w w))")
    case None
    with a show ?thesis by (simp add: unwind_backend_def all_traced_def)
  next
    case (Some x)
    obtain ok w1 where x: "x = (ok, w1)" by (cases x)
    have "Restore_backend (backend_w w) = script_of p restoring (CtxBackend (backend_w w))"
      by (simp add: script_of_def)
    from run_last_traced[OF Some[unfolded x] this] a
    have "list_all (traced p opts) (history w1)" by (auto simp: all_traced_def)
    with a Some x show ?thesis
      by (simp add: unwind_backend_def all_traced_def add_def)
  qed
next
  fix r w assume a: "all_traced p opts r w"
  show "case unwind_project r w of (r', w') \<Rightarrow> all_traced p opts r' w'"
  proof (cases "run_last (options r) w restoring CtxProject (Restore_project (project r))")
    case None
    with a show ?thesis by (simp add: unwind_project_def all_traced_def)
  next
    case (Some x)
    obtain ok w1 where x: "x = (ok, w1)" by (cases x)
    have "Restore_project (project r) = script_of p restoring CtxProject"
      using a by (simp add: script_of_def all_traced_def)
    from run_last_traced[OF Some[unfolded x] this] a
    have "list_all (traced p opts) (history w1)" by (auto simp: all_traced_def)
    with a Some x show ?thesis
      by (simp add: unwind_project_def all_traced_def add_def)
  qed
next
  fix r w assume "all_traced p opts r w" "status w = Crashed"
  then show "all_traced p opts r w" by simp
next
  fix r w d assume "all_traced p opts r w" "status w \<noteq> Crashed"
  then show "all_traced p opts (r\<lparr>done_chan := done_chan r + 1\<rparr>) (w\<lparr>status := Done, discarded := d\<rparr>)"
    by (simp add: all_traced_def)
qed

lemma prepared_well_Nil [simp]: "\<not> prepared_well [] c"
  by (simp add: prepared_well_def pending_since_Nil)

lemma prepared_well_append [simp]:
  "prepared_well (h @ es) c =
     track (\<lambda>e. ev_verb e = preparing \<and> ev_ctx e = c \<and> ev_ok e)
       (\<lambda>e. ev_ctx e = c \<and> (ev_verb e = restoring \<or> (ev_verb e = preparing \<and> \<not> ev_ok e)))
       (prepared_well h c) es"
  by (simp add: prepared_well_def pending_since_append)

lemma well_loop_body:
  assumes "well_ok opts r w" and nr: "\<not> Restore opts"
  shows "case loop_body j r w of (r', w') \<Rightarrow> well_ok opts r' w'"
proof (rule loop_body_rule[where
      Ga = "well_ok opts" and Gb = "well_ok opts" and Gc = "well_ok opts" and
      Gd = "well_ok opts" and Ge = "well_ok opts" and S = "well_ok opts"])
  show "well_ok opts r w" by (rule assms)
next
  fix r w assume "well_ok opts r w"
  then show "flow_sat (well_ok opts) (well_ok opts) (bad_suite_check j r w)"
    by (auto simp: bad_suite_check_def flow_sat_def well_ok_def add_def)
next
  fix r w assume "well_ok opts r w"
  then show "flow_sat (well_ok opts) (well_ok opts) (suite_switch j r w)"
    unfolding suite_switch_def flow_sat_def
    by (auto simp: well_ok_def prepared_well_inv_def add_def
        split: option.splits prod.splits if_splits dest!: run_last_D)
next
  fix r w assume "well_ok opts r w"
  then show "flow_sat (well_ok opts) (well_ok opts) (project_prepare j r w)"
    unfolding project_prepare_def flow_sat_def using nr
    by (auto simp: well_ok_def prepared_well_inv_def add_def Let_def
        split: prod.splits if_splits dest!: run_w_D)
next
  fix r w assume "well_ok opts r w"
  then show "flow_sat (well_ok opts) (well_ok opts) (backend_prepare j r w)"
    unfolding backend_prepare_def flow_sat_def using nr
    by (auto simp: well_ok_def prepared_well_inv_def add_def Let_def
        split: prod.splits if_splits dest!: run_w_D)
next
  fix r w assume "well_ok opts r w"
  then show "flow_sat (well_ok opts) (well_ok opts) (enter_suite j r w)"
    unfolding enter_suite_def flow_sat_def using nr
    by (auto simp: well_ok_def prepared_well_inv_def add_def Let_def
        split: prod.splits if_splits dest!: run_w_D)
next
  fix r w assume "well_ok opts r w"
  then show "flow_sat (well_ok opts) (well_ok opts) (task_run j r w)"
    unfolding task_run_def flow_sat_def
    by (auto simp: well_ok_def prepared_well_inv_def add_def
        split: prod.splits if_splits dest!: run_w_D)
next
  fix r w assume "well_ok opts r w"
  then show "flow_sat (well_ok opts) (well_ok opts) (task_restore j r w)"
    unfolding task_restore_def flow_sat_def
    by (auto simp: well_ok_def prepared_well_inv_def add_def
        split: prod.splits if_splits dest!: run_w_D)
qed

lemma well_unwind:
  assumes "prepared_well_inv w"
  shows "case worker_unwind r w of (r', w') \<Rightarrow> prepared_well_inv w'"
proof (rule unwind_rule[where Pa = "\<lambda>r. prepared_well_inv" and Pb = "\<lambda>r. prepared_well_inv"
      and Pc = "\<lambda>r. prepared_well_inv" and Pd = "\<lambda>r. prepared_well_inv"])
  show "prepared_well_inv w" by (rule assms)
next
  fix r w assume "prepared_well_inv w"
  then show "case unwind_suite r w of (r', w') \<Rightarrow> prepared_well_inv w'"
    by (auto simp: unwind_suite_def prepared_well_inv_def split: option.splits if_splits
        dest!: run_last_D)
next
  fix r w assume "prepared_well_inv w"
  then show "case unwind_backend r w of (r', w') \<Rightarrow> prepared_well_inv w'"
    by (auto simp: unwind_backend_def prepared_well_inv_def split: option.splits if_splits
        dest!: run_last_D)
next
  fix r w assume "prepared_well_inv w"
  then show "case unwind_project r w of (r', w') \<Rightarrow> prepared_well_inv w'"
    by (auto simp: unwind_project_def prepared_well_inv_def split: option.splits if_splits
        dest!: run_last_D)
next
  fix r w assume "prepared_well_inv w" "status w = Crashed"
  then show "prepared_well_inv w" by simp
next
  fix r w d assume "prepared_well_inv w" "status w \<noteq> Crashed"
  then show "prepared_well_inv (w\<lparr>status := Done, discarded := d\<rparr>)"
    by (simp add: prepared_well_inv_def)
qed

lemma last_ctxs_0 [simp]: "last_ctxs 0 h = []"
  by (simp add: last_ctxs_def)

lemma last_ctxs_snoc [simp]: "last_ctxs (Suc n) (h @ [e]) = last_ctxs n h @ [ev_ctx e]"
  by (simp add: last_ctxs_def)

lemmas shape_defs = shape_go_def shape_in_def shape_stop_def entered_def flags_off_def
  job_settled_def

lemma shape_loop_body:
  assumes "shape_go opts r w \<and> entered w" and re: "Restore opts"
  shows "case loop_body j r w of (r', w') \<Rightarrow> shape_stop opts j r' w'"
proof (rule loop_body_rule_gen[where
      Ga = "\<lambda>r w. shape_go opts r w \<and> entered w" and
      Gb = "\<lambda>r w. shape_go opts r w \<and> entered w" and
      Gc = "shape_in opts j False False" and Gp = "shape_in opts j True False" and
      Gq = "shape_in opts j True True" and
      Gd = "\<lambda>r w. shape_go opts r w \<and> last_w w = Some j \<and> entered w" and
      Ge = "\<lambda>r w. shape_go opts r w \<and> last_w w = Some j \<and> entered w" and
      S = "shape_stop opts j"])
  show "shape_go opts r w \<and> entered w" by (rule assms)
next
  fix r w assume "shape_go opts r w \<and> entered w"
  then show "flow_sat (shape_stop opts j) (\<lambda>r w. shape_go opts r w \<and> entered w)
      (bad_suite_check j r w)"
    by (auto simp: bad_suite_check_def flow_sat_def shape_go_def)
next
  fix r w assume "shape_go opts r w \<and> entered w"
  then show "flow_sat (shape_stop opts j) (shape_in opts j False False) (suite_switch j r w)"
    unfolding suite_switch_def flow_sat_def
    by (auto simp: shape_defs add_def
        split: option.splits prod.splits if_splits dest!: run_last_D run_last_None_D)
next
  fix r w assume "shape_in opts j False False r w" "\<not> insideProject w"
  then show "flow_sat (shape_stop opts j) (shape_in opts j True False) (project_prepare j r w)"
    unfolding project_prepare_def flow_sat_def using re
    by (auto simp: shape_defs Let_def)
next
  fix r w assume "shape_in opts j True False r w"
  then show "flow_sat (shape_stop opts j) (shape_in opts j True True) (backend_prepare j r w)"
    unfolding backend_prepare_def flow_sat_def using re
    by (auto simp: shape_defs Let_def)
next
  fix r w assume "shape_in opts j False False r w" "insideProject w"
  then show "shape_in opts j True True r w"
    by (auto simp: shape_defs)
next
  fix r w assume "shape_in opts j True True r w"
  then show "flow_sat (shape_stop opts j)
      (\<lambda>r w. shape_go opts r w \<and> last_w w = Some j \<and> entered w) (enter_suite j r w)"
    unfolding enter_suite_def flow_sat_def using re
    by (auto simp: shape_defs Let_def)
next
  fix r w assume "shape_go opts r w \<and> last_w w = Some j \<and> entered w"
  then show "flow_sat (shape_stop opts j)
      (\<lambda>r w. shape_go opts r w \<and> last_w w = Some j \<and> entered w) (task_run j r w)"
    unfolding task_run_def flow_sat_def using re
    by (auto simp: shape_defs)
next
  fix r w assume "shape_go opts r w \<and> last_w w = Some j \<and> entered w"
  then show "flow_sat (shape_stop opts j) (shape_stop opts j) (task_restore j r w)"
    unfolding task_restore_def flow_sat_def
    by (auto simp: shape_defs add_def split: prod.splits if_splits dest!: run_w_D)
qed

lemma shape_unwind:
  assumes "\<forall>s. \<not> badSuite w s" and "entered w"
  shows "case worker_unwind r w of (r', w') \<Rightarrow>
     (\<forall>s. \<not> badSuite w' s) \<and>
     (status w' = Crashed \<or> (status w' = Done \<and> (\<not> abend w' \<longrightarrow> unwound w')))"
proof (rule unwind_rule[where Pa = "shape_unwound 0" and Pb = "shape_unwound (Suc 0)"
      and Pc = "shape_unwound (Suc (Suc 0))" and Pd = "shape_unwound (Suc (Suc (Suc 0)))"])
  show "shape_unwound 0 r w"
    using assms by (auto simp: shape_unwound_def entered_def split: option.splits)
next
  fix r w assume "shape_unwound 0 r w"
  then show "case unwind_suite r w of (r', w') \<Rightarrow> shape_unwound (Suc 0) r' w'"
    by (auto simp: unwind_suite_def shape_unwound_def flags_off_def add_def
        split: option.splits if_splits dest!: run_last_D run_last_None_D)
next
  fix r w assume "shape_unwound (Suc 0) r w"
  then show "case unwind_backend r w of (r', w') \<Rightarrow> shape_unwound (Suc (Suc 0)) r' w'"
    by (auto simp: unwind_backend_def shape_unwound_def flags_off_def add_def
        split: option.splits if_splits dest!: run_last_D run_last_None_D)
next
  fix r w assume "shape_unwound (Suc (Suc 0)) r w"
  then show "case unwind_project r w of (r', w') \<Rightarrow> shape_unwound (Suc (Suc (Suc 0))) r' w'"
    by (auto simp: unwind_project_def shape_unwound_def flags_off_def add_def
        split: option.splits if_splits dest!: run_last_D run_last_None_D)
next
  fix r w assume "shape_unwound (Suc (Suc (Suc 0))) r w" "status w = Crashed"
  then show "(\<forall>s. \<not> badSuite w s) \<and>
     (status w = Crashed \<or> (status w = Done \<and> (\<not> abend w \<longrightarrow> unwound w)))"
    by (simp add: shape_unwound_def)
next
  fix r w d assume "shape_unwound (Suc (Suc (Suc 0))) r w" "status w \<noteq> Crashed"
  then show "(\<forall>s. \<not> badSuite (w\<lparr>status := Done, discarded := d\<rparr>) s) \<and>
     (status (w\<lparr>status := Done, discarded := d\<rparr>) = Crashed \<or>
      (status (w\<lparr>status := Done, discarded := d\<rparr>) = Done \<and>
       (\<not> abend (w\<lparr>status := Done, discarded := d\<rparr>) \<longrightarrow>
          unwound (w\<lparr>status := Done, discarded := d\<rparr>))))"
    by (auto simp: shape_unwound_def unwound_def eval_nat_numeral split: option.splits)
qed

lemma job_w_loop_body:
  assumes "job_w w = x"
  shows "case loop_body j r w of (r', w') \<Rightarrow> job_w w' = x"
proof (rule loop_body_rule[where
      Ga = "\<lambda>r (w::worker). job_w w = x" and Gb = "\<lambda>r (w::worker). job_w w = x" and Gc = "\<lambda>r (w::worker). job_w w = x" and
      Gd = "\<lambda>r (w::worker). job_w w = x" and Ge = "\<lambda>r (w::worker). job_w w = x" and S = "\<lambda>r (w::worker). job_w w = x"])
  show "job_w w = x" by (rule assms)
next
  fix r and w :: worker assume "job_w w = x"
  then show "flow_sat (\<lambda>r (w::worker). job_w w = x) (\<lambda>r (w::worker). job_w w = x) (bad_suite_check j r w)"
    by (auto simp: bad_suite_check_def flow_sat_def)
next
  fix r and w :: worker assume "job_w w = x"
  then show "flow_sat (\<lambda>r (w::worker). job_w w = x) (\<lambda>r (w::worker). job_w w = x) (suite_switch j r w)"
    by (auto simp: suite_switch_def flow_sat_def split: option.splits dest!: run_last_D)
next
  fix r and w :: worker assume "job_w w = x"
  then show "flow_sat (\<lambda>r (w::worker). job_w w = x) (\<lambda>r (w::worker). job_w w = x) (project_prepare j r w)"
    by (auto simp: project_prepare_def flow_sat_def Let_def split: prod.splits dest!: run_w_D)
next
  fix r and w :: worker assume "job_w w = x"
  then show "flow_sat (\<lambda>r (w::worker). job_w w = x) (\<lambda>r (w::worker). job_w w = x) (backend_prepare j r w)"
    by (auto simp: backend_prepare_def flow_sat_def Let_def split: prod.splits dest!: run_w_D)
next
  fix r and w :: worker assume "job_w w = x"
  then show "flow_sat (\<lambda>r (w::worker). job_w w = x) (\<lambda>r (w::worker). job_w w = x) (enter_suite j r w)"
    by (auto simp: enter_suite_def flow_sat_def Let_def split: prod.splits dest!: run_w_D)
next
  fix r and w :: worker assume "job_w w = x"
  then show "flow_sat (\<lambda>r (w::worker). job_w w = x) (\<lambda>r (w::worker). job_w w = x) (task_run j r w)"
    by (auto simp: task_run_def flow_sat_def split: prod.splits dest!: run_w_D)
next
  fix r and w :: worker assume "job_w w = x"
  then show "flow_sat (\<lambda>r (w::worker). job_w w = x) (\<lambda>r (w::worker). job_w w = x) (task_restore j r w)"
    by (auto simp: task_restore_def flow_sat_def split: prod.splits dest!: run_w_D)
qed

lemma worker_more_status:
  assumes "worker_more p opts w" "st \<noteq> Acquiring" "st \<noteq> Done" "st \<noteq> AtHead" "status w \<noteq> Done"
  shows "worker_more p opts (w\<lparr>job_w := jo, status := st\<rparr>)"
  using assms
  by (auto simp: worker_more_def prepared_well_inv_def restore_shape_def entered_def flags_off_def
      split: option.splits)

lemma worker_more_acquire:
  assumes "project r = p" "worker_more p opts w" "status w = Acquiring"
    "worker_acquire r w = (r', w')"
  shows "project r' = p \<and> worker_more p opts w'"
proof -
  obtain r1 res where c: "client r (backend_w w) (acquire_passes w) = (r1, res)"
    by (cases "client r (backend_w w) (acquire_passes w)")
  from client_frame[OF c] assms(1) have o: "project r1 = p" by (simp add: outside_frame_def)
  have m: "worker_more p opts (w\<lparr>acquire_passes := []\<rparr>)"
    "worker_more p opts (w\<lparr>status := Done\<rparr>)"
    "worker_more p opts (w\<lparr>status := AtHead, server_w := Some sv\<rparr>)" for sv
    using assms(2,3)
    by (auto simp: worker_more_def prepared_well_inv_def restore_shape_def entered_def
        flags_off_def unwound_def split: option.splits)
  show ?thesis
    using assms(4) c o m
    by (auto simp: worker_acquire_def split: option.splits)
qed

lemma worker_head_project:
  assumes "worker_head r w = (r', w')"
  shows "project r' = project r"
  using assms unfolding worker_head_def Let_def
  by (auto split: option.splits prod.splits if_splits)

lemma worker_more_head:
  assumes "project r = p" "worker_more p opts w" "status w = AtHead" "worker_head r w = (r', w')"
  shows "project r' = p \<and> worker_more p opts w'"
proof -
  from worker_head_effect[OF assms(4)] obtain jo st where
    w: "w' = w\<lparr>job_w := jo, status := st\<rparr>"
    and s: "st = Unwinding \<or> (st = Picked \<and> \<not> abend w)" by blast
  have "worker_more p opts (w\<lparr>job_w := jo, status := st\<rparr>)"
    by (rule worker_more_status) (use assms(2,3) s in auto)
  then show ?thesis using w worker_head_project[OF assms(4)] assms(1) by simp
qed

lemma worker_more_body:
  assumes pr: "project r = p" and o: "options r = opts" and ok: "worker_ok opts w"
    and m: "worker_more p opts w" and pk: "status w = Picked" and jw: "job_w w = Some j"
    and b: "worker_body r w j = (r', w')"
  shows "project r' = p \<and> worker_more p opts w'"
proof -
  obtain r1 w1 where lb: "loop_body j r w = (r1, w1)" by (cases "loop_body j r w")
  have li: "last_inv w1"
    using last_inv_loop_body[of w j r] ok lb by (simp add: worker_ok_def)
  then have nc: "status w1 \<noteq> Crashed" by (simp add: last_inv_def)
  from b lb nc have e: "r' = r1" "w' = w1\<lparr>status := AtHead\<rparr>"
    by (simp_all add: worker_body_def)
  have "all_traced p opts r w" using pr o m by (simp add: all_traced_def worker_more_def)
  from traced_loop_body[OF this, of j] lb
  have t: "project r1 = p" "list_all (traced p opts) (history w1)"
    by (simp_all add: all_traced_def)
  have g: "prepared_well_inv w1" if nr: "\<not> Restore opts"
  proof -
    have "well_ok opts r w" using o m nr by (simp add: well_ok_def worker_more_def)
    from well_loop_body[OF this nr, of j] lb show ?thesis by (simp add: well_ok_def)
  qed
  have s: "restore_shape (w1\<lparr>status := AtHead\<rparr>)" if re: "Restore opts"
  proof -
    have na: "\<not> abend w" using ok pk by (simp add: worker_ok_def)
    have "shape_go opts r w \<and> entered w"
      using o m re pk na by (simp add: shape_go_def worker_more_def restore_shape_def)
    from shape_loop_body[OF this re, of j] lb have st: "shape_stop opts j r1 w1" by simp
    from job_w_loop_body[OF jw, of j r] lb have "job_w w1 = Some j" by simp
    with st show ?thesis
      by (auto simp: restore_shape_def shape_stop_def entered_def flags_off_def job_settled_def
          split: option.splits ctx.splits)
  qed
  show ?thesis
    unfolding e using t g s by (simp add: worker_more_def prepared_well_inv_def)
qed

lemma worker_more_unwind:
  assumes pr: "project r = p" and o: "options r = opts" and ok: "worker_ok opts w"
    and m: "worker_more p opts w" and un: "status w = Unwinding"
    and u: "worker_unwind r w = (r', w')"
  shows "project r' = p \<and> worker_more p opts w'"
proof -
  have li: "last_inv w'" using last_inv_unwind[of w r] ok u by (simp add: worker_ok_def)
  then have nc: "status w' \<noteq> Crashed" by (simp add: last_inv_def)
  have "all_traced p opts r w" using pr o m by (simp add: all_traced_def worker_more_def)
  from traced_unwind[OF this] u
  have t: "project r' = p" "list_all (traced p opts) (history w')"
    by (simp_all add: all_traced_def)
  have g: "prepared_well_inv w'" if "\<not> Restore opts"
    using well_unwind[of w r] that m u by (simp add: worker_more_def)
  have s: "restore_shape w'" if re: "Restore opts"
  proof -
    have "\<forall>s. \<not> badSuite w s" "entered w"
      using m re un by (simp_all add: worker_more_def restore_shape_def)
    from shape_unwind[OF this, of r] u nc show ?thesis by (simp add: restore_shape_def)
  qed
  show ?thesis using t g s by (simp add: worker_more_def)
qed

lemma worker_more_step:
  assumes "project r = p" "options r = opts" "worker_ok opts w" "worker_more p opts w"
    "worker_step r w = (r', w')"
  shows "project r' = p \<and> worker_more p opts w'"
proof (cases "status w")
  case Acquiring
  with assms(5) have "worker_acquire r w = (r', w')" by (simp add: worker_step_def)
  from worker_more_acquire[OF assms(1,4) Acquiring this] show ?thesis .
next
  case AtHead
  with assms(5) have "worker_head r w = (r', w')" by (simp add: worker_step_def)
  from worker_more_head[OF assms(1,4) AtHead this] show ?thesis .
next
  case Picked
  show ?thesis
  proof (cases "job_w w")
    case None
    with Picked assms show ?thesis by (simp add: worker_step_def)
  next
    case (Some j)
    with Picked assms(5) have "worker_body r w j = (r', w')" by (simp add: worker_step_def)
    from worker_more_body[OF assms(1-4) Picked Some this] show ?thesis .
  qed
next
  case Unwinding
  with assms(5) have "worker_unwind r w = (r', w')" by (simp add: worker_step_def)
  from worker_more_unwind[OF assms(1-4) Unwinding this] show ?thesis .
next
  case Done
  with assms show ?thesis by (simp add: worker_step_def)
next
  case Crashed
  with assms show ?thesis by (simp add: worker_step_def)
qed

lemma abort_pending_project: "project (abort_pending ps r) = project r"
  by (induction ps r rule: abort_pending.induct) (simp_all add: add_def)

lemma supervisor_recv_project: "project (supervisor_recv r) = project r"
  by (simp add: supervisor_recv_def Let_def abort_pending_project)

lemma all_more_sys_step:
  assumes "all_more p opts st"
  shows "all_more p opts (sys_step e st)"
proof -
  obtain r ws where st: "st = (r, ws)" by (cases st)
  from assms st have pr: "project r = p" and ao: "all_ok opts (r, ws)"
    and a: "list_all (worker_more p opts) ws"
    by (simp_all add: all_more_def)
  from ao have o: "options r = opts" and k: "list_all (worker_ok opts) ws"
    by (simp_all add: all_ok_def)
  have ao': "all_ok opts (sys_step e (r, ws))" by (rule all_ok_sys_step[OF ao])
  show ?thesis
  proof (cases "list_ex (\<lambda>w. status w = Crashed) ws")
    case True
    then show ?thesis using assms st by simp
  next
    case nc: False
    show ?thesis
    proof (cases e)
      case (Step i)
      show ?thesis
      proof (cases "i < length ws")
        case False
        then show ?thesis using nc assms st Step by simp
      next
        case True
        obtain r1 w1 where ws: "worker_step r (ws ! i) = (r1, w1)"
          by (cases "worker_step r (ws ! i)")
        have "worker_ok opts (ws ! i)" "worker_more p opts (ws ! i)"
          using a k True by (simp_all add: list_all_length)
        from worker_more_step[OF pr o this ws]
        have p1: "project r1 = p" and m1: "worker_more p opts w1" by simp_all
        have "list_all (worker_more p opts) (ws[i := w1])"
          using a m1 True by (auto simp: list_all_length nth_list_update)
        then show ?thesis using nc st Step True ws p1 ao' by (simp add: all_more_def)
      qed
    next
      case Recv
      then show ?thesis using nc st pr a ao' by (simp add: all_more_def supervisor_recv_project)
    next
      case Kill
      then show ?thesis using nc st pr a ao' by (simp add: all_more_def)
    qed
  qed
qed

lemma all_more_run_schedule:
  "all_more p opts st \<Longrightarrow> all_more p opts (run_schedule sch st)"
  unfolding run_schedule_def
  by (induction sch arbitrary: st) (simp_all add: all_more_sys_step)

lemma worker_more_init: "worker_more p opts (init_worker b sys orc)"
  by (simp add: worker_more_def prepared_well_inv_def restore_shape_def entered_def
      flags_off_def init_worker_def)

lemma all_more_loop_start: "all_more p opts (loop_start p opts js env)"
proof -
  have "project (fst (loop_start p opts js env)) = p"
    by (simp add: loop_start_def split: prod.splits)
  moreover have "list_all (worker_more p opts) (snd (loop_start p opts js env))"
    by (auto simp: loop_start_def list_all_iff worker_more_init split: prod.splits)
  ultimately show ?thesis using all_ok_loop_start[of opts p js env] by (simp add: all_more_def)
qed

lemma reachable_worker_more:
  assumes "run_schedule sch (loop_start p opts js env) = (r, ws)" and "w \<in> set ws"
  shows "worker_more p opts w"
  using all_more_run_schedule[OF all_more_loop_start, of p opts sch js env] assms
  by (simp add: all_more_def list_all_iff)

section \<open>What every run guarantees of its workers\<close>

text \<open>The definitions to unfold when a run is evaluated on example data.\<close>

lemmas model_defs = run_schedule_def loop_start_def count_workers_def count_backend_def spawn_def
  init_worker_def worker_step_def worker_acquire_def worker_head_def worker_body_def
  worker_unwind_def unwind_suite_def unwind_backend_def unwind_project_def loop_body_def
  bad_suite_check_def suite_switch_def enter_project_def project_prepare_def
  backend_prepare_def enter_suite_def task_run_def task_restore_def run_last_def run_w_def
  run_def add_def supervisor_recv_def client_pass_def claim_or_allocate_def
  connect_and_send_def lookup_list_def lookup_int_def job_pick_def suiteWorkersKey_def
  TrimSpace_def IsSpace_def no_stats_def Let_def enumerate_eq_zip

lemmas ex_defs = ex_project_def ex_options_def ex_backend_def ex_job1_def ex_suite1_def
  ex_task_def ex_script_def ex_env_def ex_alloc_pass_def ex_server1_def

text \<open>
  Claim C9. In every state a run can reach, no worker has stopped on a nil dereference,
  and for a worker that has returned: every call of \<^verbatim>\<open>run\<close> to prepare a level (project,
  backend, suite or task) is followed by a call of \<^verbatim>\<open>run\<close> to restore the same level,
  which hands the restore script of that level to \<^verbatim>\<open>client.Trace\<close> unless the script is
  blank. The only exception is a level the worker had not left when \<^verbatim>\<open>abend\<close> stopped it
  (the project, its backend or its suite by the worker's flags, the task of its last
  job): then the abend option is set, the last call of \<^verbatim>\<open>run\<close> failed and nothing was
  run after it. This covers the prepares whose script was executed.
\<close>

theorem restore_symmetry:
  assumes "run_schedule sch (loop_start p opts js env) = (r, ws)" and "w \<in> set ws"
  shows "status w \<noteq> Crashed \<and>
     (status w = Done \<longrightarrow>
        (\<forall>i<length (history w). ev_verb (history w ! i) = preparing \<longrightarrow>
           (\<exists>k. i < k \<and> k < length (history w) \<and> ev_verb (history w ! k) = restoring \<and>
                ev_ctx (history w ! k) = ev_ctx (history w ! i) \<and>
                traced p opts (history w ! k)) \<or>
           (abend w \<and> Abend opts \<and> history w \<noteq> [] \<and> \<not> ev_ok (last (history w)) \<and>
            still_inside w (ev_ctx (history w ! i)))))"
proof -
  from reachable_worker_ok[OF assms] have ok: "worker_ok opts w" .
  from reachable_worker_more[OF assms] have tr: "list_all (traced p opts) (history w)"
    by (simp add: worker_more_def)
  from ok have nc: "status w \<noteq> Crashed" and ri: "restore_inv opts w"
    by (simp_all add: worker_ok_def last_inv_def)
  have "(\<exists>k. i < k \<and> k < length (history w) \<and> ev_verb (history w ! k) = restoring \<and>
                ev_ctx (history w ! k) = ev_ctx (history w ! i) \<and>
                traced p opts (history w ! k)) \<or>
           (abend w \<and> Abend opts \<and> history w \<noteq> [] \<and> \<not> ev_ok (last (history w)) \<and>
            still_inside w (ev_ctx (history w ! i)))"
    if d: "status w = Done" and i: "i < length (history w)"
      and pi: "ev_verb (history w ! i) = preparing" for i
  proof (cases "owes (history w) (ev_ctx (history w ! i))")
    case False
    then obtain k where k: "i < k" "k < length (history w)"
        "ev_verb (history w ! k) = restoring" "ev_ctx (history w ! k) = ev_ctx (history w ! i)"
      using i pi unfolding owes_def pending_since_def by blast
    from tr k(2) have "traced p opts (history w ! k)" by (simp add: list_all_length)
    with k show ?thesis by blast
  next
    case True
    with ri have si: "still_inside w (ev_ctx (history w ! i))"
      and ja: "(\<exists>j. ev_ctx (history w ! i) = CtxJob j) \<longrightarrow> abend w"
      by (cases "ev_ctx (history w ! i)"; auto simp: restore_inv_def still_inside_def)+
    have "abend w"
    proof (rule ccontr)
      assume na: "\<not> abend w"
      with ok d have "flags_off w" by (simp add: worker_ok_def)
      with si ja na show False
        by (cases "ev_ctx (history w ! i)") (auto simp: still_inside_def flags_off_def)
    qed
    with ri si show ?thesis by (simp add: restore_inv_def)
  qed
  with nc show ?thesis by blast
qed

theorem restore_symmetry_witness:
  "(case run_schedule [Step 0, Step 0, Step 0, Step 0, Step 0]
           (loop_start ex_project ex_options [ex_job1] (ex_env 100)) of
      (r, ws) \<Rightarrow>
        length ws = 1 \<and> status (ws ! 0) = Done \<and> \<not> abend (ws ! 0) \<and>
        map ev_verb (history (ws ! 0)) =
          [preparing, preparing, preparing, preparing, executing,
           restoring, restoring, restoring, restoring] \<and>
        history (ws ! 0) ! 8 = Run restoring CtxProject True [CallTrace ex_script RemoteDir] \<and>
        (\<exists>k. 0 < k \<and> k < length (history (ws ! 0)) \<and>
             ev_verb (history (ws ! 0) ! k) = restoring \<and>
             ev_ctx (history (ws ! 0) ! k) = ev_ctx (history (ws ! 0) ! 0) \<and>
             traced ex_project ex_options (history (ws ! 0) ! k)))"
proof -
  obtain r ws where e: "run_schedule [Step 0, Step 0, Step 0, Step 0, Step 0]
           (loop_start ex_project ex_options [ex_job1] (ex_env 100)) = (r, ws)"
    by (cases "run_schedule [Step 0, Step 0, Step 0, Step 0, Step 0]
           (loop_start ex_project ex_options [ex_job1] (ex_env 100))")
  have v: "length ws = 1 \<and> status (ws ! 0) = Done \<and> \<not> abend (ws ! 0) \<and>
        map ev_verb (history (ws ! 0)) =
          [preparing, preparing, preparing, preparing, executing,
           restoring, restoring, restoring, restoring] \<and>
        history (ws ! 0) ! 8 = Run restoring CtxProject True [CallTrace ex_script RemoteDir]"
    using e by (simp add: model_defs ex_defs) auto
  then have m: "ws ! 0 \<in> set ws" by (cases ws) auto
  have l: "length (history (ws ! 0)) = 9" "ev_verb (history (ws ! 0) ! 0) = preparing"
    using v by (auto dest: arg_cong[where f = length] arg_cong[where f = "\<lambda>l. l ! 0"])
  from restore_symmetry[OF e m] v l
  have "\<exists>k. 0 < k \<and> k < length (history (ws ! 0)) \<and>
             ev_verb (history (ws ! 0) ! k) = restoring \<and>
             ev_ctx (history (ws ! 0) ! k) = ev_ctx (history (ws ! 0) ! 0) \<and>
             traced ex_project ex_options (history (ws ! 0) ! k)"
    by auto
  with v show ?thesis unfolding e by simp
qed

text \<open>
  Claim C4, amended. Between the steps of a worker (at the top of an iteration, after a
  pick, after the loop), unless the restore option is set: if \<^verbatim>\<open>insideSuite\<close> is not nil,
  \<^verbatim>\<open>run\<close> has been called to prepare that suite and no restore of that suite has
  succeeded since; and if moreover the worker has marked neither that suite nor the
  project as bad, a prepare of that suite has succeeded, with no failed prepare and no
  restore of it since. The same holds of \<^verbatim>\<open>insideBackend\<close> and \<^verbatim>\<open>insideProject\<close>, with
  \<^verbatim>\<open>badProject\<close> alone.
\<close>

theorem inside_levels_prepared:
  assumes "run_schedule sch (loop_start p opts js env) = (r, ws)" and "w \<in> set ws"
    and "\<not> Restore opts"
  shows "(insideProject w \<longrightarrow>
            prepared (history w) CtxProject \<and>
            (\<not> badProject w \<longrightarrow> prepared_well (history w) CtxProject)) \<and>
         (insideBackend w \<longrightarrow>
            prepared (history w) (CtxBackend (backend_w w)) \<and>
            (\<not> badProject w \<longrightarrow> prepared_well (history w) (CtxBackend (backend_w w)))) \<and>
         (\<forall>s. insideSuite w = Some s \<longrightarrow>
            prepared (history w) (CtxSuite s) \<and>
            (\<not> badSuite w s \<and> \<not> badProject w \<longrightarrow> prepared_well (history w) (CtxSuite s)))"
  using reachable_worker_ok[OF assms(1,2)] reachable_worker_more[OF assms(1,2)] assms(3)
  by (simp add: worker_ok_def prepared_inv_def worker_more_def prepared_well_inv_def)

theorem inside_levels_prepared_witness:
  "(case run_schedule [Step 0, Step 0, Step 0]
           (loop_start ex_project ex_options [ex_job1] (ex_env 100)) of
      (r, ws) \<Rightarrow>
        length ws = 1 \<and> \<not> Restore ex_options \<and> status (ws ! 0) = AtHead \<and>
        insideProject (ws ! 0) \<and> insideBackend (ws ! 0) \<and>
        insideSuite (ws ! 0) = Some ex_suite1 \<and>
        \<not> badProject (ws ! 0) \<and> \<not> badSuite (ws ! 0) ex_suite1 \<and>
        prepared_well (history (ws ! 0)) CtxProject \<and>
        prepared_well (history (ws ! 0)) (CtxBackend (backend_w (ws ! 0))) \<and>
        prepared_well (history (ws ! 0)) (CtxSuite ex_suite1))"
proof -
  obtain r ws where e: "run_schedule [Step 0, Step 0, Step 0]
           (loop_start ex_project ex_options [ex_job1] (ex_env 100)) = (r, ws)"
    by (cases "run_schedule [Step 0, Step 0, Step 0]
           (loop_start ex_project ex_options [ex_job1] (ex_env 100))")
  have v: "length ws = 1 \<and> \<not> Restore ex_options \<and> status (ws ! 0) = AtHead \<and>
        insideProject (ws ! 0) \<and> insideBackend (ws ! 0) \<and>
        insideSuite (ws ! 0) = Some ex_suite1 \<and>
        \<not> badProject (ws ! 0) \<and> \<not> badSuite (ws ! 0) ex_suite1"
    using e by (simp add: model_defs ex_defs) auto
  then have m: "ws ! 0 \<in> set ws" by (cases ws) auto
  from inside_levels_prepared[OF e m] v show ?thesis unfolding e by simp
qed

text \<open>
  The claim as written asks for a prepare that succeeded whenever the flag is set. The
  flag is set before the prepare runs and stays when it fails: here the project's prepare
  fails and \<^verbatim>\<open>insideProject\<close> holds at the top of the next iteration, with \<^verbatim>\<open>badProject\<close>.
\<close>

theorem inside_project_counterexample:
  "(case run_schedule [Step 0, Step 0, Step 0]
           (loop_start ex_project ex_options [ex_job1] (ex_env 0)) of
      (r, ws) \<Rightarrow>
        status (ws ! 0) = AtHead \<and> insideProject (ws ! 0) \<and> badProject (ws ! 0) \<and>
        history (ws ! 0) = [Run preparing CtxProject False [CallTrace ex_script RemoteDir]])"
  by (simp add: model_defs ex_defs)

text \<open>
  Claim C3, amended. Under the restore option, in every state a run can reach: every
  call of \<^verbatim>\<open>run\<close> by a worker is a restore, and it hands the restore script of its level
  to \<^verbatim>\<open>client.Trace\<close> unless the script is blank. At the top of the loop, the last call
  of \<^verbatim>\<open>run\<close> is the restore of the task of the job of the iteration just ended, or else
  the failed restore of another suite, the one the worker was leaving and is still
  inside, and \<^verbatim>\<open>badProject\<close> is set. A worker that has returned with \<^verbatim>\<open>abend\<close> not
  set, after at least one iteration has set \<^verbatim>\<open>last\<close>, has made as its last three calls
  of \<^verbatim>\<open>run\<close> the restores of the suite of \<^verbatim>\<open>last\<close>, of its backend and of the
  project: the levels count as entered although their prepares are skipped.
\<close>

theorem restore_mode_only_restores:
  assumes "run_schedule sch (loop_start p opts js env) = (r, ws)" and "w \<in> set ws"
    and "Restore opts"
  shows "(\<forall>e \<in> set (history w). ev_verb e = restoring \<and> traced p opts e) \<and>
         (status w = AtHead \<longrightarrow> (\<forall>j. job_w w = Some j \<longrightarrow> job_settled w j)) \<and>
         (status w = Done \<and> \<not> abend w \<longrightarrow>
            (\<forall>l. last_w w = Some l \<longrightarrow>
               last_ctxs 3 (history w) =
                 [CtxSuite (Suite l), CtxBackend (backend_w w), CtxProject]))"
  using reachable_worker_ok[OF assms(1,2)] reachable_worker_more[OF assms(1,2)] assms(3)
  by (auto simp: worker_ok_def only_restores_def worker_more_def restore_shape_def unwound_def
      list_all_iff)

theorem restore_mode_only_restores_witness:
  "(case run_schedule [Step 0, Step 0, Step 0, Step 0, Step 0]
           (loop_start ex_project (ex_options\<lparr>Restore := True\<rparr>) [ex_job1] (ex_env 100)) of
      (r, ws) \<Rightarrow>
        length ws = 1 \<and> Restore (ex_options\<lparr>Restore := True\<rparr>) \<and>
        status (ws ! 0) = Done \<and> \<not> abend (ws ! 0) \<and> last_w (ws ! 0) = Some ex_job1 \<and>
        backend_w (ws ! 0) = ex_backend \<and> length (history (ws ! 0)) = 4 \<and>
        list_all (\<lambda>e. ev_verb e = restoring) (history (ws ! 0)) \<and>
        last_ctxs 3 (history (ws ! 0)) =
          [CtxSuite (Suite ex_job1), CtxBackend ex_backend, CtxProject])"
proof -
  obtain r ws where e: "run_schedule [Step 0, Step 0, Step 0, Step 0, Step 0]
           (loop_start ex_project (ex_options\<lparr>Restore := True\<rparr>) [ex_job1] (ex_env 100)) = (r, ws)"
    by (cases "run_schedule [Step 0, Step 0, Step 0, Step 0, Step 0]
           (loop_start ex_project (ex_options\<lparr>Restore := True\<rparr>) [ex_job1] (ex_env 100))")
  have v: "length ws = 1 \<and> Restore (ex_options\<lparr>Restore := True\<rparr>) \<and>
        status (ws ! 0) = Done \<and> \<not> abend (ws ! 0) \<and> last_w (ws ! 0) = Some ex_job1 \<and>
        backend_w (ws ! 0) = ex_backend \<and> length (history (ws ! 0)) = 4"
    using e by (simp add: model_defs ex_defs) auto
  then have m: "ws ! 0 \<in> set ws" by (cases ws) auto
  from restore_mode_only_restores[OF e m] v show ?thesis
    unfolding e by (simp add: list_all_iff)
qed

text \<open>
  The claim as written says that no restore of a suite, backend or project runs after the
  loop under the restore option. With one job, the worker runs the task's restore and
  then, after the loop, the restores of the suite, the backend and the project.
\<close>

theorem restore_mode_unwind_counterexample:
  "(case run_schedule [Step 0, Step 0, Step 0, Step 0, Step 0]
           (loop_start ex_project (ex_options\<lparr>Restore := True\<rparr>) [ex_job1] (ex_env 100)) of
      (r, ws) \<Rightarrow>
        status (ws ! 0) = Done \<and>
        history (ws ! 0) =
          [Run restoring (CtxJob ex_job1) True [CallTrace ex_script (TaskDir ''t1'')],
           Run restoring (CtxSuite ex_suite1) True [CallTrace ex_script (TaskDir ''t1'')],
           Run restoring (CtxBackend ex_backend) True [CallTrace ex_script RemoteDir],
           Run restoring CtxProject True [CallTrace ex_script RemoteDir]])"
  by (simp add: model_defs ex_defs)

section \<open>Conservation of the jobs in the stats\<close>

lemmas acc_defs = acc_go_def acc_stop_def stats_frame_def accounted_def add_def

lemma acc_loop_body:
  assumes nr: "\<not> Restore (options r)"
  shows "case loop_body j r w of (r', w') \<Rightarrow> acc_stop r r' w'"
proof (rule loop_body_rule[where
      Ga = "acc_go r 0" and Gb = "acc_go r 0" and Gc = "acc_go r 0" and
      Gd = "acc_go r 0" and Ge = "acc_go r 1" and S = "acc_stop r"])
  show "acc_go r 0 r w" by (simp add: acc_defs)
next
  fix r1 w1 assume "acc_go r 0 r1 w1"
  then show "flow_sat (acc_stop r) (acc_go r 0) (bad_suite_check j r1 w1)"
    by (auto simp: bad_suite_check_def flow_sat_def acc_defs)
next
  fix r1 w1 assume "acc_go r 0 r1 w1"
  then show "flow_sat (acc_stop r) (acc_go r 0) (suite_switch j r1 w1)"
    by (auto simp: suite_switch_def flow_sat_def acc_defs split: option.splits)
next
  fix r1 w1 assume "acc_go r 0 r1 w1"
  then show "flow_sat (acc_stop r) (acc_go r 0) (project_prepare j r1 w1)"
    by (auto simp: project_prepare_def flow_sat_def acc_defs Let_def split: prod.splits)
next
  fix r1 w1 assume "acc_go r 0 r1 w1"
  then show "flow_sat (acc_stop r) (acc_go r 0) (backend_prepare j r1 w1)"
    by (auto simp: backend_prepare_def flow_sat_def acc_defs Let_def split: prod.splits)
next
  fix r1 w1 assume "acc_go r 0 r1 w1"
  then show "flow_sat (acc_stop r) (acc_go r 0) (enter_suite j r1 w1)"
    by (auto simp: enter_suite_def flow_sat_def acc_defs Let_def split: prod.splits)
next
  fix r1 w1 assume "acc_go r 0 r1 w1"
  then show "flow_sat (acc_stop r) (acc_go r 1) (task_run j r1 w1)"
    using nr by (auto simp: task_run_def flow_sat_def acc_defs split: prod.splits)
next
  fix r1 w1 assume "acc_go r 1 r1 w1"
  then show "flow_sat (acc_stop r) (acc_stop r) (task_restore j r1 w1)"
    by (auto simp: task_restore_def flow_sat_def acc_defs split: prod.splits)
qed

lemma acc_unwind:
  "case worker_unwind r w of (r', w') \<Rightarrow>
     options r' = options r \<and> alive r' = alive r \<and> finished r' = finished r \<and>
     pending r' = pending r \<and> accounted r' = accounted r \<and>
     ((status w' = Crashed \<and> done_chan r' = done_chan r) \<or>
      (status w' = Done \<and> done_chan r' = done_chan r + 1))"
proof (rule unwind_rule[where
      Pa = "\<lambda>r' w'. stats_frame r r' \<and> accounted r' = accounted r" and
      Pb = "\<lambda>r' w'. stats_frame r r' \<and> accounted r' = accounted r" and
      Pc = "\<lambda>r' w'. stats_frame r r' \<and> accounted r' = accounted r" and
      Pd = "\<lambda>r' w'. stats_frame r r' \<and> accounted r' = accounted r"])
  show "stats_frame r r \<and> accounted r = accounted r" by (simp add: stats_frame_def)
next
  fix r1 w1 assume "stats_frame r r1 \<and> accounted r1 = accounted r"
  then show "case unwind_suite r1 w1 of (r', w') \<Rightarrow> stats_frame r r' \<and> accounted r' = accounted r"
    by (auto simp: unwind_suite_def acc_defs split: option.splits)
next
  fix r1 w1 assume "stats_frame r r1 \<and> accounted r1 = accounted r"
  then show "case unwind_backend r1 w1 of (r', w') \<Rightarrow> stats_frame r r' \<and> accounted r' = accounted r"
    by (auto simp: unwind_backend_def acc_defs split: option.splits)
next
  fix r1 w1 assume "stats_frame r r1 \<and> accounted r1 = accounted r"
  then show "case unwind_project r1 w1 of (r', w') \<Rightarrow> stats_frame r r' \<and> accounted r' = accounted r"
    by (auto simp: unwind_project_def acc_defs split: option.splits)
next
  fix r1 w1 assume "stats_frame r r1 \<and> accounted r1 = accounted r" "status w1 = Crashed"
  then show "options r1 = options r \<and> alive r1 = alive r \<and> finished r1 = finished r \<and>
     pending r1 = pending r \<and> accounted r1 = accounted r \<and>
     ((status w1 = Crashed \<and> done_chan r1 = done_chan r) \<or>
      (status w1 = Done \<and> done_chan r1 = done_chan r + 1))"
    by (simp add: stats_frame_def)
next
  fix r1 w1 d assume "stats_frame r r1 \<and> accounted r1 = accounted r" "status w1 \<noteq> Crashed"
  then show "options (r1\<lparr>done_chan := done_chan r1 + 1\<rparr>) = options r \<and>
     alive (r1\<lparr>done_chan := done_chan r1 + 1\<rparr>) = alive r \<and>
     finished (r1\<lparr>done_chan := done_chan r1 + 1\<rparr>) = finished r \<and>
     pending (r1\<lparr>done_chan := done_chan r1 + 1\<rparr>) = pending r \<and>
     accounted (r1\<lparr>done_chan := done_chan r1 + 1\<rparr>) = accounted r \<and>
     ((status (w1\<lparr>status := Done, discarded := d\<rparr>) = Crashed \<and>
       done_chan (r1\<lparr>done_chan := done_chan r1 + 1\<rparr>) = done_chan r) \<or>
      (status (w1\<lparr>status := Done, discarded := d\<rparr>) = Done \<and>
       done_chan (r1\<lparr>done_chan := done_chan r1 + 1\<rparr>) = done_chan r + 1))"
    by (simp add: stats_frame_def accounted_def)
qed


lemma job_pick_Some:
  assumes "job_pick sw ps b sys su = (Some j, ps')"
  shows "\<exists>k<length ps. ps ! k = Some j \<and> ps' = ps[k := None]"
proof -
  define best where "best = job_scan sw b sys su 0 ps (- 1) 1000000"
  from assms have ge: "best \<ge> 0" and res: "ps ! nat best = Some j" "ps' = ps[nat best := None]"
    by (auto simp: job_pick_def best_def Let_def split: if_splits)
  from job_scan_bounds[of sw b sys su 0 ps "- 1" 1000000] ge
  have "best < int (length ps)" by (auto simp: best_def)
  with ge have "nat best < length ps" by simp
  with res show ?thesis by blast
qed

lemma job_pick_None:
  assumes "job_pick sw ps b sys su = (None, ps')"
  shows "length (filter (\<lambda>x. x \<noteq> None) ps') = length (filter (\<lambda>x. x \<noteq> None) ps)"
proof (cases "job_scan sw b sys su 0 ps (- 1) 1000000 \<ge> 0")
  case False
  with assms show ?thesis by (simp add: job_pick_def)
next
  case True
  define k where "k = nat (job_scan sw b sys su 0 ps (- 1) 1000000)"
  from assms True have n: "ps ! k = None" and e: "ps' = ps[k := None]"
    by (simp_all add: job_pick_def k_def Let_def)
  from job_scan_bounds[of sw b sys su 0 ps "- 1" 1000000] True
  have "k < length ps" by (auto simp: k_def)
  with n have "ps[k := None] = ps" by (metis list_update_id)
  with e show ?thesis by simp
qed

lemma filter_clear_slot:
  assumes "k < length ps" "ps ! k = Some j"
  shows "Suc (length (filter (\<lambda>x. x \<noteq> None) (ps[k := None]))) =
         length (filter (\<lambda>x. x \<noteq> None) ps)"
proof -
  have a: "ps = take k ps @ Some j # drop (Suc k) ps"
    using assms by (metis id_take_nth_drop)
  have b: "ps[k := None] = take k ps @ None # drop (Suc k) ps"
    using assms by (simp add: upd_conv_take_nth_drop)
  have "length (filter (\<lambda>x. x \<noteq> None) ps) =
        length (filter (\<lambda>x. x \<noteq> None) (take k ps @ Some j # drop (Suc k) ps))"
    using a by simp
  then show ?thesis unfolding b by simp
qed

lemma acc_head:
  assumes "worker_head r w = (r', w')"
  shows "options r' = options r \<and> alive r' = alive r \<and> finished r' = finished r \<and>
     done_chan r' = done_chan r \<and> accounted r' = accounted r \<and>
     ((status w' = Picked \<and> Suc (n_pending r') = n_pending r) \<or>
      (status w' = Unwinding \<and> n_pending r' = n_pending r))"
proof -
  define r1 where "r1 = (case job_w w of None \<Rightarrow> r
      | Some j \<Rightarrow> r\<lparr>suiteWorkers := (suiteWorkers r)
            (suiteWorkersKey j := suiteWorkers r (suiteWorkersKey j) - 1)\<rparr>)"
  have f1: "options r1 = options r" "alive r1 = alive r" "finished r1 = finished r"
    "done_chan r1 = done_chan r" "stats r1 = stats r" "pending r1 = pending r"
    by (simp_all add: r1_def split: option.splits)
  show ?thesis
  proof (cases "badProject w \<or> abend w \<or> \<not> tomb_alive r")
    case True
    with assms have "r' = r1" "w' = w\<lparr>status := Unwinding\<rparr>"
      by (auto simp: worker_head_def r1_def Let_def)
    then show ?thesis using f1 by (simp add: accounted_def n_pending_def)
  next
    case False
    obtain jo ps where jp: "job_pick (suiteWorkers r1) (pending r1) (backend_w w) (system_w w)
        (insideSuite w) = (jo, ps)"
      by (cases "job_pick (suiteWorkers r1) (pending r1) (backend_w w) (system_w w) (insideSuite w)")
    show ?thesis
    proof (cases jo)
      case None
      with assms False jp have e: "r' = r1" "w' = w\<lparr>job_w := None, status := Unwinding\<rparr>"
        by (auto simp: worker_head_def r1_def[symmetric] Let_def)
      then show ?thesis using f1 by (simp add: accounted_def n_pending_def)
    next
      case (Some j)
      with assms False jp have e: "r' = r1\<lparr>pending := ps,
          suiteWorkers := (suiteWorkers r1)
             (suiteWorkersKey j := suiteWorkers r1 (suiteWorkersKey j) + 1)\<rparr>"
        "w' = w\<lparr>job_w := Some j, status := Picked\<rparr>"
        by (auto simp: worker_head_def r1_def[symmetric] Let_def)
      from job_pick_Some[OF jp[unfolded Some]] obtain k where
        k: "k < length (pending r1)" "pending r1 ! k = Some j" "ps = (pending r1)[k := None]"
        by blast
      from filter_clear_slot[OF k(1,2)] k(3) f1
      have "Suc (n_pending r') = n_pending r" by (simp add: n_pending_def e)
      then show ?thesis using f1 e by (simp add: accounted_def)
    qed
  qed
qed

lemma acc_acquire:
  assumes "worker_acquire r w = (r', w')"
  shows "options r' = options r \<and> alive r' = alive r \<and> finished r' = finished r \<and>
     pending r' = pending r \<and> accounted r' = accounted r \<and>
     ((status w' = Done \<and> done_chan r' = done_chan r + 1) \<or>
      ((status w' = status w \<or> status w' = AtHead) \<and> done_chan r' = done_chan r))"
proof -
  obtain r1 res where c: "client r (backend_w w) (acquire_passes w) = (r1, res)"
    by (cases "client r (backend_w w) (acquire_passes w)")
  from client_frame[OF c] have f: "outside_frame r r1" .
  show ?thesis
    using assms f unfolding worker_acquire_def c
    by (auto simp: outside_frame_def accounted_def split: option.splits)
qed

lemma acc_step:
  assumes nr: "\<not> Restore (options r)" and st: "worker_step r w = (r', w')"
  shows "options r' = options r \<and> alive r' = alive r \<and> finished r' = finished r \<and>
     (status w' = Crashed \<or>
      (accounted r' + n_pending r' + picked w' = accounted r + n_pending r + picked w \<and>
       done_chan r' + is_done w = done_chan r + is_done w'))"
proof (cases "status w")
  case Acquiring
  with st have "worker_acquire r w = (r', w')" by (simp add: worker_step_def)
  from acc_acquire[OF this] Acquiring show ?thesis
    by (auto simp: n_pending_def picked_def is_done_def)
next
  case AtHead
  with st have "worker_head r w = (r', w')" by (simp add: worker_step_def)
  from acc_head[OF this] AtHead show ?thesis
    by (auto simp: picked_def is_done_def)
next
  case Picked
  show ?thesis
  proof (cases "job_w w")
    case None
    with Picked st show ?thesis by (simp add: worker_step_def)
  next
    case (Some j)
    obtain r1 w1 where lb: "loop_body j r w = (r1, w1)" by (cases "loop_body j r w")
    from acc_loop_body[OF nr, of j w] lb have a: "acc_stop r r1 w1" by simp
    from st Picked Some lb have e: "r' = r1"
      "w' = (if status w1 = Crashed then w1 else w1\<lparr>status := AtHead\<rparr>)"
      by (simp_all add: worker_step_def worker_body_def)
    show ?thesis using a Picked unfolding e
      by (auto simp: acc_stop_def stats_frame_def n_pending_def picked_def is_done_def)
  qed
next
  case Unwinding
  with st have "worker_unwind r w = (r', w')" by (simp add: worker_step_def)
  with acc_unwind[of r w] Unwinding show ?thesis
    by (auto simp: n_pending_def picked_def is_done_def)
next
  case Done
  with st show ?thesis by (simp add: worker_step_def)
next
  case Crashed
  with st show ?thesis by (simp add: worker_step_def)
qed


lemma sum_list_map_update:
  fixes f :: "'a \<Rightarrow> nat"
  assumes "i < length ws"
  shows "sum_list (map f (ws[i := y])) + f (ws ! i) = sum_list (map f ws) + f y"
  using assms
proof (induction ws arbitrary: i)
  case Nil
  then show ?case by simp
next
  case (Cons a ws)
  then show ?case by (cases i) auto
qed

lemma is_done_le: "sum_list (map is_done ws) \<le> length ws"
  by (induction ws) (auto simp: is_done_def)

lemma is_done_all:
  "sum_list (map is_done ws) = length ws \<Longrightarrow> list_all (\<lambda>w. status w = Done) ws"
proof (induction ws)
  case Nil
  then show ?case by simp
next
  case (Cons a ws)
  have le: "sum_list (map is_done ws) \<le> length ws" by (rule is_done_le)
  have one: "is_done a \<le> 1" by (simp add: is_done_def)
  from Cons.prems have "is_done a + sum_list (map is_done ws) = Suc (length ws)" by simp
  with le one have "is_done a = 1" "sum_list (map is_done ws) = length ws" by linarith+
  moreover from \<open>is_done a = 1\<close> have "status a = Done"
    by (simp add: is_done_def split: if_splits)
  ultimately show ?case using Cons.IH by simp
qed

lemma all_done_not_picked:
  "list_all (\<lambda>w. status w = Done) ws \<Longrightarrow> sum_list (map picked ws) = 0"
  by (induction ws) (auto simp: picked_def)

lemma abort_pending_frame:
  "options (abort_pending ps r) = options r \<and>
   accounted (abort_pending ps r) = accounted r + length (filter (\<lambda>x. x \<noteq> None) ps)"
  by (induction ps r rule: abort_pending.induct) (simp_all add: add_def accounted_def)

lemma run_inv_recv:
  assumes nc: "\<not> list_ex (\<lambda>w. status w = Crashed) ws" and inv: "run_inv N (r, ws)"
  shows "run_inv N (supervisor_recv r, ws)"
proof (cases "finished r \<or> done_chan r = 0")
  case True
  then show ?thesis using inv by (simp add: supervisor_recv_def)
next
  case False
  then have nf: "\<not> finished r" and pos: "done_chan r > 0" by simp_all
  from inv nc nf have acc: "accounted r + n_pending r + sum_list (map picked ws) = N"
    and al: "alive r + int (sum_list (map is_done ws)) = int (length ws) + int (done_chan r)"
    by (simp_all add: run_inv_def)
  define r1 where "r1 = r\<lparr>done_chan := done_chan r - 1, alive := alive r - 1\<rparr>"
  show ?thesis
  proof (cases "alive r1 > 0")
    case True
    then have "supervisor_recv r = r1" using False by (simp add: supervisor_recv_def r1_def)
    moreover have "accounted r1 = accounted r" "n_pending r1 = n_pending r" "\<not> finished r1"
      using nf by (simp_all add: r1_def accounted_def n_pending_def)
    moreover have "alive r1 + int (sum_list (map is_done ws)) = int (length ws) + int (done_chan r1)"
      using al pos by (simp add: r1_def)
    ultimately show ?thesis using acc nc by (simp add: run_inv_def)
  next
    case le: False
    then have e: "supervisor_recv r = (abort_pending (pending r1) r1)\<lparr>finished := True\<rparr>"
      using False by (simp add: supervisor_recv_def r1_def Let_def)
    have "alive r - 1 \<le> 0" using le by (simp add: r1_def)
    with al pos have "int (length ws) \<le> int (sum_list (map is_done ws))" by linarith
    with is_done_le[of ws] have "sum_list (map is_done ws) = length ws" by simp
    then have ad: "list_all (\<lambda>w. status w = Done) ws" by (rule is_done_all)
    then have "sum_list (map picked ws) = 0" by (rule all_done_not_picked)
    with acc have "accounted r + n_pending r = N" by simp
    moreover have "accounted (supervisor_recv r) = accounted r1 + n_pending r1"
      unfolding e using abort_pending_frame[of "pending r1" r1]
      by (simp add: accounted_def n_pending_def)
    moreover have "accounted r1 = accounted r" "n_pending r1 = n_pending r"
      by (simp_all add: r1_def accounted_def n_pending_def)
    moreover have "finished (supervisor_recv r)" unfolding e by simp
    ultimately show ?thesis using ad by (simp add: run_inv_def)
  qed
qed

lemma run_inv_worker:
  assumes nr: "\<not> Restore (options r)" and nc: "\<not> list_ex (\<lambda>w. status w = Crashed) ws"
    and inv: "run_inv N (r, ws)" and i: "i < length ws"
    and st: "worker_step r (ws ! i) = (r1, w1)"
  shows "run_inv N (r1, ws[i := w1])"
proof (cases "status w1 = Crashed")
  case True
  have "w1 \<in> set (ws[i := w1])" using i by (simp add: set_update_memI)
  with True have "list_ex (\<lambda>w. status w = Crashed) (ws[i := w1])"
    unfolding list_ex_iff by blast
  then show ?thesis by (simp add: run_inv_def)
next
  case False
  from acc_step[OF nr st] False
  have f: "finished r1 = finished r" "alive r1 = alive r"
    and a: "accounted r1 + n_pending r1 + picked w1 = accounted r + n_pending r + picked (ws ! i)"
    and d: "done_chan r1 + is_done (ws ! i) = done_chan r + is_done w1"
    by simp_all
  show ?thesis
  proof (cases "finished r")
    case True
    with inv nc have acc: "accounted r = N" and ad: "list_all (\<lambda>w. status w = Done) ws"
      by (simp_all add: run_inv_def)
    from ad i have "status (ws ! i) = Done" by (simp add: list_all_length)
    with st have "r1 = r" "w1 = ws ! i" by (simp_all add: worker_step_def)
    then show ?thesis using inv by simp
  next
    case nf: False
    with inv nc have acc: "accounted r + n_pending r + sum_list (map picked ws) = N"
      and al: "alive r + int (sum_list (map is_done ws)) = int (length ws) + int (done_chan r)"
      by (simp_all add: run_inv_def)
    from sum_list_map_update[OF i, of picked w1] a acc
    have acc': "accounted r1 + n_pending r1 + sum_list (map picked (ws[i := w1])) = N"
      by linarith
    from sum_list_map_update[OF i, of is_done w1] d al f
    have al': "alive r1 + int (sum_list (map is_done (ws[i := w1]))) =
               int (length (ws[i := w1])) + int (done_chan r1)"
      by simp
    show ?thesis using nf f acc' al' by (simp add: run_inv_def)
  qed
qed

lemma run_inv_sys_step:
  assumes "\<not> Restore (options (fst st))" and "run_inv N st"
  shows "run_inv N (sys_step e st)"
proof -
  obtain r ws where st: "st = (r, ws)" by (cases st)
  show ?thesis
  proof (cases "list_ex (\<lambda>w. status w = Crashed) ws")
    case True
    then show ?thesis using assms st by simp
  next
    case nc: False
    show ?thesis
    proof (cases e)
      case (Step i)
      show ?thesis
      proof (cases "i < length ws")
        case False
        then show ?thesis using nc assms st Step by simp
      next
        case True
        obtain r1 w1 where ws: "worker_step r (ws ! i) = (r1, w1)"
          by (cases "worker_step r (ws ! i)")
        from run_inv_worker[OF _ nc _ True ws, of N] assms st
        have "run_inv N (r1, ws[i := w1])" by simp
        then show ?thesis using nc st Step True ws by simp
      qed
    next
      case Recv
      from run_inv_recv[OF nc, of N r] assms st
      show ?thesis using nc Recv by simp
    next
      case Kill
      have "run_inv N (r\<lparr>tomb_alive := False\<rparr>, ws)"
        using assms(2) st by (auto simp: run_inv_def accounted_def n_pending_def)
      then show ?thesis using nc st Kill by simp
    qed
  qed
qed

lemma run_inv_run_schedule:
  assumes "\<not> Restore opts" and "all_ok opts st" and "run_inv N st"
  shows "run_inv N (run_schedule sch st)"
  using assms(2,3) unfolding run_schedule_def
proof (induction sch arbitrary: st)
  case Nil
  then show ?case by simp
next
  case (Cons e sch)
  have "\<not> Restore (options (fst st))" using Cons.prems(1) assms(1) by (simp add: all_ok_def)
  from run_inv_sys_step[OF this Cons.prems(2)] all_ok_sys_step[OF Cons.prems(1)]
  show ?case using Cons.IH by simp
qed


lemma length_concat_replicate:
  "int (length (concat (map (\<lambda>x. replicate (f x) (g x)) xs))) = (\<Sum>x\<leftarrow>xs. int (f x))"
  by (induction xs) simp_all

lemma length_spawn:
  "int (length (spawn bs workers)) =
     (\<Sum>b\<leftarrow>bs. \<Sum>sys\<leftarrow>Systems b. int (nat (workers (Name_backend b, sys))))"
  unfolding spawn_def
proof (induction bs)
  case Nil
  then show ?case by simp
next
  case (Cons b bs)
  then show ?case
    using length_concat_replicate[of "\<lambda>sys. nat (workers (Name_backend b, sys))"
        "\<lambda>sys. (b, sys)" "Systems b"]
    by simp
qed

lemma alive_is_spawned:
  assumes "distinct_systems bs"
  shows "snd (count_workers bs js) = int (length (spawn bs (fst (count_workers bs js))))"
proof -
  have d: "distinct (map Name_backend bs)" and ds: "\<forall>b \<in> set bs. distinct (Systems b)"
    using assms by (simp_all add: distinct_systems_def)
  note E = count_backends_eq[OF d ds, of js "(\<lambda>_. 0, 0)", folded count_workers_def]
  have g: "0 \<le> grant b sys js 0" for b sys by (simp add: grant_def)
  have inner: "map (\<lambda>sys. int (nat (fst (count_workers bs js) (Name_backend b, sys)))) (Systems b) =
        map (\<lambda>sys. grant b sys js 0) (Systems b)"
    if b: "b \<in> set bs" for b
  proof (rule map_cong)
    fix sys assume s: "sys \<in> set (Systems b)"
    from E b s have "fst (count_workers bs js) (Name_backend b, sys) = 0 + grant b sys js 0"
      by auto
    then show "int (nat (fst (count_workers bs js) (Name_backend b, sys))) = grant b sys js 0"
      using g[of b sys] by simp
  qed simp
  have "(\<Sum>sys\<leftarrow>Systems b. int (nat (fst (count_workers bs js) (Name_backend b, sys)))) =
        backend_total js (\<lambda>_. 0) b"
    if "b \<in> set bs" for b
    unfolding backend_total_def using inner[OF that] by (rule arg_cong)
  then have "map (\<lambda>b. \<Sum>sys\<leftarrow>Systems b. int (nat (fst (count_workers bs js) (Name_backend b, sys)))) bs =
        map (backend_total js (\<lambda>_. 0)) bs"
    by (intro map_cong) simp_all
  then have "(\<Sum>b\<leftarrow>bs. \<Sum>sys\<leftarrow>Systems b. int (nat (fst (count_workers bs js) (Name_backend b, sys)))) =
        (\<Sum>b\<leftarrow>bs. backend_total js (\<lambda>_. 0) b)"
    by (rule arg_cong)
  moreover from E have "snd (count_workers bs js) = 0 + (\<Sum>b\<leftarrow>bs. backend_total js (\<lambda>_. 0) b)"
    by auto
  ultimately show ?thesis by (simp add: length_spawn)
qed

lemma run_inv_loop_start:
  assumes "distinct_systems (Backends p)"
  shows "run_inv (length js) (loop_start p opts js env)"
proof -
  obtain workers al where c: "count_workers (Backends p) js = (workers, al)"
    by (cases "count_workers (Backends p) js")
  from alive_is_spawned[OF assms, of js] c
  have al: "al = int (length (spawn (Backends p) workers))" by simp
  define ws where "ws = map (\<lambda>(i, (b, sys)). init_worker b sys (env i))
             (enumerate 0 (spawn (Backends p) workers))"
  have st: "\<forall>w \<in> set ws. status w = Acquiring"
    by (auto simp: ws_def init_worker_def)
  have z: "sum_list (map picked ws) = 0" "sum_list (map is_done ws) = 0"
    using st by (induction ws) (auto simp: picked_def is_done_def)
  have nc: "\<not> list_ex (\<lambda>w. status w = Crashed) ws" using st by (auto simp: list_ex_iff)
  have len: "length ws = length (spawn (Backends p) workers)" by (simp add: ws_def)
  have np: "length (filter (\<lambda>x. x \<noteq> None) (map Some js)) = length js"
    by (induction js) simp_all
  show ?thesis
    unfolding loop_start_def c
    using z nc len al np
    by (simp add: run_inv_def ws_def[symmetric] accounted_def n_pending_def no_stats_def)
qed

text \<open>
  Claim C1, amended. For a project whose backends have different names and list each
  system once, with the restore option not set: when \<^verbatim>\<open>loop\<close> has returned, after its
  deferred function has turned the slots still pending into \<^verbatim>\<open>TaskAbort\<close>, the lengths
  of \<^verbatim>\<open>TaskDone\<close>, \<^verbatim>\<open>TaskError\<close> and \<^verbatim>\<open>TaskAbort\<close> add up to the number of input
  jobs. So the four lengths of the claim add up to the number of input jobs plus the
  length of \<^verbatim>\<open>TaskPrepareError\<close>.
\<close>

theorem stats_conservation:
  assumes "distinct_systems (Backends p)" and "\<not> Restore opts"
    and "run_schedule sch (loop_start p opts js env) = (r, ws)" and "finished r"
  shows "length (TaskDone (stats r)) + length (TaskError (stats r)) +
         length (TaskAbort (stats r)) = length js \<and>
         length (TaskDone (stats r)) + length (TaskError (stats r)) +
         length (TaskAbort (stats r)) + length (TaskPrepareError (stats r)) =
           length js + length (TaskPrepareError (stats r))"
proof -
  have ok: "all_ok opts (loop_start p opts js env)" by (rule all_ok_loop_start)
  from run_inv_run_schedule[OF assms(2) ok run_inv_loop_start[OF assms(1)], where sch = sch]
    assms(3)
  have inv: "run_inv (length js) (r, ws)" by simp
  have "worker_ok opts w" if "w \<in> set ws" for w
    using reachable_worker_ok[OF assms(3) that] .
  then have "\<not> list_ex (\<lambda>w. status w = Crashed) ws"
    by (auto simp: list_ex_iff worker_ok_def last_inv_def)
  with inv assms(4) show ?thesis by (simp add: run_inv_def accounted_def)
qed

theorem stats_conservation_witness:
  "(case run_schedule [Step 0, Step 0, Step 0, Step 0, Step 0, Recv]
           (loop_start ex_project ex_options [ex_job1] (ex_env 100)) of
      (r, ws) \<Rightarrow>
        distinct_systems (Backends ex_project) \<and> \<not> Restore ex_options \<and> finished r \<and>
        TaskDone (stats r) = [Some ex_job1] \<and>
        length (TaskDone (stats r)) + length (TaskError (stats r)) +
          length (TaskAbort (stats r)) = length [ex_job1])"
proof -
  obtain r ws where e: "run_schedule [Step 0, Step 0, Step 0, Step 0, Step 0, Recv]
           (loop_start ex_project ex_options [ex_job1] (ex_env 100)) = (r, ws)"
    by (cases "run_schedule [Step 0, Step 0, Step 0, Step 0, Step 0, Recv]
           (loop_start ex_project ex_options [ex_job1] (ex_env 100))")
  have w: "distinct_systems (Backends ex_project)"
    by (simp add: distinct_systems_def ex_project_def ex_backend_def)
  have n: "\<not> Restore ex_options" by (simp add: ex_options_def)
  have v: "finished r \<and> TaskDone (stats r) = [Some ex_job1]"
    using e by (simp add: model_defs ex_defs) auto
  from stats_conservation[OF w n e] v w n show ?thesis unfolding e by simp
qed

text \<open>
  The claim as written also adds the length of \<^verbatim>\<open>TaskPrepareError\<close>, and holds of every
  completed run. With one job whose task prepare fails the four lengths add up to 2.
  In the second run, under the restore option, the one job is picked, its task restore
  succeeds and the job is recorded in none of the four lists, so they add up to 0.
\<close>

theorem stats_conservation_counterexample:
  "(case run_schedule [Step 0, Step 0, Step 0, Step 0, Step 0, Recv]
           (loop_start ex_project ex_options [ex_job1] (ex_env 3)) of
      (r, ws) \<Rightarrow>
        finished r \<and> TaskDone (stats r) = [] \<and> TaskError (stats r) = [] \<and>
        TaskAbort (stats r) = [Some ex_job1] \<and> TaskPrepareError (stats r) = [Some ex_job1] \<and>
        length (TaskDone (stats r)) + length (TaskError (stats r)) + length (TaskAbort (stats r)) +
          length (TaskPrepareError (stats r)) \<noteq> length [ex_job1]) \<and>
   (case run_schedule [Step 0, Step 0, Step 0, Step 0, Step 0, Recv]
           (loop_start ex_project (ex_options\<lparr>Restore := True\<rparr>) [ex_job1] (ex_env 100)) of
      (r, ws) \<Rightarrow>
        finished r \<and> TaskDone (stats r) = [] \<and> TaskError (stats r) = [] \<and>
        TaskAbort (stats r) = [] \<and> TaskPrepareError (stats r) = [] \<and>
        length (TaskDone (stats r)) + length (TaskError (stats r)) + length (TaskAbort (stats r)) +
          length (TaskPrepareError (stats r)) \<noteq> length [ex_job1])"
  by (simp add: model_defs ex_defs)

end
